theory Spec2Isabelle
  imports Main "HOL-Library.Word"
begin

section \<open>Go slices over an explicit store\<close>

text \<open>
  A Go slice is a window (pointer, length, capacity) on a backing array. The store maps an
  address to its backing array, whose list length is the array's full capacity. Every
  slice of the handler starts at the first cell of its array, so no offset is kept.
\<close>

type_synonym 'a store = "'a list list"

record slice =
  s_ptr :: nat
  s_len :: nat
  s_cap :: nat

definition nil_slice :: slice where
  "nil_slice = \<lparr>s_ptr = 0, s_len = 0, s_cap = 0\<rparr>"

definition sread :: "'a store \<Rightarrow> slice \<Rightarrow> 'a list" where
  "sread st sl = (if s_len sl = 0 then [] else take (s_len sl) (st ! s_ptr sl))"

datatype fault = IndexOutOfRange | FuelExhausted

text \<open>\<open>make([]T, n)\<close>: a fresh array of \<open>n\<close> zero elements.\<close>

definition smake :: "'a \<Rightarrow> 'a store \<Rightarrow> nat \<Rightarrow> 'a store \<times> slice" where
  "smake z st n = (st @ [replicate n z], \<lparr>s_ptr = length st, s_len = n, s_cap = n\<rparr>)"

text \<open>\<open>copy(dst, src)\<close>: the first \<open>min(len(dst), len(src))\<close> elements.\<close>

definition scopy :: "'a store \<Rightarrow> slice \<Rightarrow> slice \<Rightarrow> 'a store" where
  "scopy st dst src =
     (let m = min (s_len dst) (s_len src)
      in if m = 0 then st
         else st[s_ptr dst := take m (sread st src) @ drop m (st ! s_ptr dst)])"

text \<open>\<open>s[i] = v\<close>, which panics when \<open>i\<close> is not below the length.\<close>

definition swrite :: "'a store \<Rightarrow> slice \<Rightarrow> nat \<Rightarrow> 'a \<Rightarrow> fault + 'a store" where
  "swrite st sl i v =
     (if i < s_len sl then Inr (st[s_ptr sl := (st ! s_ptr sl)[i := v]])
      else Inl IndexOutOfRange)"

text \<open>
  \<open>append(s, xs...)\<close>: when the elements fit in the spare capacity they are written in
  place, into the cells after the length of the same backing array; otherwise a fresh
  array is allocated, of a capacity the runtime chooses (at least what is needed), and
  the old array is left as it is.
\<close>

definition go_append ::
  "'a \<Rightarrow> (nat \<Rightarrow> nat \<Rightarrow> nat) \<Rightarrow> 'a store \<Rightarrow> slice \<Rightarrow> 'a list \<Rightarrow> 'a store \<times> slice" where
  "go_append z grow st sl xs =
     (let n = s_len sl + length xs
      in if n \<le> s_cap sl then
           (if xs = [] then st
            else st[s_ptr sl := take (s_len sl) (st ! s_ptr sl) @ xs @ drop n (st ! s_ptr sl)],
            sl\<lparr>s_len := n\<rparr>)
         else
           (let c = max n (grow (s_cap sl) n)
            in (st @ [sread st sl @ xs @ replicate (c - n) z],
                \<lparr>s_ptr = length st, s_len = n, s_cap = c\<rparr>)))"

text \<open>\<open>slices.IndexFunc\<close>: the first index whose element satisfies \<open>f\<close>, or \<open>-1\<close>.\<close>

fun IndexFunc :: "'a list \<Rightarrow> ('a \<Rightarrow> bool) \<Rightarrow> int" where
  "IndexFunc [] f = -1"
| "IndexFunc (x # xs) f =
     (if f x then 0 else (let i = IndexFunc xs f in if i < 0 then -1 else i + 1))"

section \<open>The values of log/slog\<close>

datatype Time = Time int nat

fun IsZero :: "Time \<Rightarrow> bool" where
  "IsZero (Time sec nsec) = (sec = 0 \<and> nsec = 0)"

record slog_Source =
  Function :: string
  File :: string
  Line :: int

text \<open>
  The dynamic value behind \<open>KindAny\<close>, by the capabilities the encoder probes:
  \<open>nil\<close>, an \<open>error\<close> (its \<open>Error()\<close> text and, when it is also a
  \<open>fmt.Formatter\<close>, what \<open>%+v\<close> prints), a \<open>fmt.Stringer\<close> (its \<open>String()\<close>),
  a \<open>slog.Level\<close>, a \<open>*slog.Source\<close> (possibly a nil pointer), or anything else
  (with what \<open>fmt.Sprint\<close> prints for it).
\<close>

datatype anyval =
    ANil
  | AError string "string option"
  | AStringer string
  | ALevel int
  | ASource "slog_Source option"
  | AOther string

datatype Value =
    VAny anyval
  | VBool bool
  | VDuration int
  | VFloat64 "64 word"
  | VInt64 int
  | VString string
  | VTime Time
  | VUint64 nat
  | VGroup "Attr list"
  | VLogValuer Value
and Attr = Attr (Key: string) (Value: Value)

definition zero_Value :: Value where
  "zero_Value = VAny ANil"

definition zero_Attr :: Attr where
  "zero_Attr = Attr [] zero_Value"

definition TimeKey :: string where "TimeKey = ''time''"
definition LevelKey :: string where "LevelKey = ''level''"
definition MessageKey :: string where "MessageKey = ''msg''"
definition SourceKey :: string where "SourceKey = ''source''"

definition slog_LevelDebug :: int where "slog_LevelDebug = -4"
definition slog_LevelInfo :: int where "slog_LevelInfo = 0"
definition slog_LevelWarn :: int where "slog_LevelWarn = 4"
definition slog_LevelError :: int where "slog_LevelError = 8"

text \<open>
  What the handler takes from the Go runtime and standard library without the repository
  fixing it: the formatting of times, floats and durations, \<open>fmt.Sprint\<close> of values
  with no textual capability, the dynamic type name used in an error text, the frame a
  program counter denotes, \<open>filepath.Rel\<close>, the working directory, and the capacity
  \<open>append\<close> chooses when it has to grow.
\<close>

record lib =
  AppendTime :: "Time \<Rightarrow> string \<Rightarrow> string"
  AppendFloat :: "64 word \<Rightarrow> string"
  AppendDuration :: "int \<Rightarrow> string"
  Sprint :: "Value \<Rightarrow> string"
  TypeName :: "Value \<Rightarrow> string"
  CallersFrame :: "nat \<Rightarrow> slog_Source"
  filepath_Rel :: "string \<Rightarrow> string \<Rightarrow> string option"
  cwd :: string
  growslice :: "nat \<Rightarrow> nat \<Rightarrow> nat"
  TrimSpace :: "string \<Rightarrow> string"

subsection \<open>Decimal formatting\<close>

fun utoa :: "nat \<Rightarrow> string" where
  "utoa n = (if n < 10 then [''0123456789'' ! n]
             else utoa (n div 10) @ [''0123456789'' ! (n mod 10)])"

declare utoa.simps [simp del]

definition itoa :: "int \<Rightarrow> string" where
  "itoa i = (if i < 0 then CHR ''-'' # utoa (nat (- i)) else utoa (nat i))"

text \<open>\<open>fmt.Sprintf("%+d", i)\<close>: the sign is always printed.\<close>

definition fmt_plus_d :: "int \<Rightarrow> string" where
  "fmt_plus_d i = (if i < 0 then CHR ''-'' # utoa (nat (- i)) else CHR ''+'' # utoa (nat i))"

definition btoa :: "bool \<Rightarrow> string" where
  "btoa b = (if b then ''true'' else ''false'')"

subsection \<open>\<open>Value.Resolve\<close> and \<open>Value.String\<close>\<close>

definition maxLogValues :: nat where
  "maxLogValues = 100"

fun resolve_loop :: "nat \<Rightarrow> Value \<Rightarrow> Value option" where
  "resolve_loop 0 v = None"
| "resolve_loop (Suc i) v = (case v of VLogValuer w \<Rightarrow> resolve_loop i w | _ \<Rightarrow> Some v)"

definition Resolve :: "lib \<Rightarrow> Value \<Rightarrow> Value" where
  "Resolve lb v =
     (case resolve_loop maxLogValues v of
        Some r \<Rightarrow> r
      | None \<Rightarrow> VAny (AError (''LogValue called too many times on Value of type '' @ TypeName lb v) None))"

text \<open>\<open>slog.Level.String\<close>, which makes a level a \<open>fmt.Stringer\<close>.\<close>

definition Level_str :: "string \<Rightarrow> int \<Rightarrow> string" where
  "Level_str base val = (if val = 0 then base else base @ fmt_plus_d val)"

definition Level_String :: "int \<Rightarrow> string" where
  "Level_String l =
     (if l < slog_LevelInfo then Level_str ''DEBUG'' (l - slog_LevelDebug)
      else if l < slog_LevelWarn then Level_str ''INFO'' (l - slog_LevelInfo)
      else if l < slog_LevelError then Level_str ''WARN'' (l - slog_LevelWarn)
      else Level_str ''ERROR'' (l - slog_LevelError))"

definition Value_String :: "lib \<Rightarrow> Value \<Rightarrow> string" where
  "Value_String lb v =
     (case v of
        VString s \<Rightarrow> s
      | VAny ANil \<Rightarrow> ''<nil>''
      | VAny (AOther s) \<Rightarrow> s
      | _ \<Rightarrow> Sprint lb v)"

section \<open>Handler options and the encoder\<close>

record Theme =
  Timestamp :: string
  Source :: string
  Message :: string
  MessageDebug :: string
  AttrKey :: string
  AttrValue :: string
  AttrValueError :: string
  LevelError :: string
  LevelWarn :: string
  LevelInfo :: string
  LevelDebug :: string

record HandlerOptions =
  AddSource :: bool
  Level :: int
  NoColor :: bool
  TimeFormat :: string
  Theme :: Theme
  Headers :: "string list"
  ReplaceAttr :: "(string list \<Rightarrow> Attr \<Rightarrow> Attr) option"

text \<open>
  The pooled encoder. \<open>hookCalls\<close> is a ghost field: the log of the calls made to
  \<open>ReplaceAttr\<close> through this encoder, each with its \<open>groups\<close> argument and the
  attribute passed.
\<close>

record encoder =
  headerBuf :: string
  middleBuf :: string
  trailerBuf :: string
  enc_groups :: "string list"
  enc_headers :: slice
  hookCalls :: "(string list \<times> Attr) list"

text \<open>Modelled from the spec: the universal reset token that closes a styled span.\<close>

definition ResetMod :: string where
  "ResetMod = [char_of (27::nat), CHR ''['', CHR ''0'', CHR ''m'']"

text \<open>
  The encoder only ever appends to the buffer it is given. Its functions take the append
  operation \<open>ap\<close> of the buffer they write to: list append for the encoder's own
  buffers, \<open>append\<close> on a slice of the store for a handler's context.
\<close>

definition withColor ::
  "('b \<Rightarrow> string \<Rightarrow> 'b) \<Rightarrow> HandlerOptions \<Rightarrow> 'b \<Rightarrow> string \<Rightarrow> ('b \<Rightarrow> 'b) \<Rightarrow> 'b" where
  "withColor ap opts b c f =
     (if c = [] \<or> NoColor opts then f b
      else ap (f (ap b c)) ResetMod)"

definition writeColoredTime ::
  "('b \<Rightarrow> string \<Rightarrow> 'b) \<Rightarrow> lib \<Rightarrow> HandlerOptions \<Rightarrow> 'b \<Rightarrow> Time \<Rightarrow> string \<Rightarrow> string \<Rightarrow> 'b" where
  "writeColoredTime ap lb opts w t format c = withColor ap opts w c (\<lambda>w. ap w (AppendTime lb t format))"

definition writeColoredString ::
  "('b \<Rightarrow> string \<Rightarrow> 'b) \<Rightarrow> HandlerOptions \<Rightarrow> 'b \<Rightarrow> string \<Rightarrow> string \<Rightarrow> 'b" where
  "writeColoredString ap opts w s c = withColor ap opts w c (\<lambda>w. ap w s)"

definition writeColoredInt ::
  "('b \<Rightarrow> string \<Rightarrow> 'b) \<Rightarrow> HandlerOptions \<Rightarrow> 'b \<Rightarrow> int \<Rightarrow> string \<Rightarrow> 'b" where
  "writeColoredInt ap opts w i c = withColor ap opts w c (\<lambda>w. ap w (itoa i))"

definition writeColoredUint ::
  "('b \<Rightarrow> string \<Rightarrow> 'b) \<Rightarrow> HandlerOptions \<Rightarrow> 'b \<Rightarrow> nat \<Rightarrow> string \<Rightarrow> 'b" where
  "writeColoredUint ap opts w i c = withColor ap opts w c (\<lambda>w. ap w (utoa i))"

definition writeColoredFloat ::
  "('b \<Rightarrow> string \<Rightarrow> 'b) \<Rightarrow> lib \<Rightarrow> HandlerOptions \<Rightarrow> 'b \<Rightarrow> 64 word \<Rightarrow> string \<Rightarrow> 'b" where
  "writeColoredFloat ap lb opts w i c = withColor ap opts w c (\<lambda>w. ap w (AppendFloat lb i))"

definition writeColoredBool ::
  "('b \<Rightarrow> string \<Rightarrow> 'b) \<Rightarrow> HandlerOptions \<Rightarrow> 'b \<Rightarrow> bool \<Rightarrow> string \<Rightarrow> 'b" where
  "writeColoredBool ap opts w b c = withColor ap opts w c (\<lambda>w. ap w (btoa b))"

definition writeColoredDuration ::
  "('b \<Rightarrow> string \<Rightarrow> 'b) \<Rightarrow> lib \<Rightarrow> HandlerOptions \<Rightarrow> 'b \<Rightarrow> int \<Rightarrow> string \<Rightarrow> 'b" where
  "writeColoredDuration ap lb opts w d c = withColor ap opts w c (\<lambda>w. ap w (AppendDuration lb d))"

definition writeColoredValue ::
  "('b \<Rightarrow> string \<Rightarrow> 'b) \<Rightarrow> lib \<Rightarrow> HandlerOptions \<Rightarrow> 'b \<Rightarrow> Value \<Rightarrow> string \<Rightarrow> 'b" where
  "writeColoredValue ap lb opts buf v style =
     (case v of
        VInt64 i \<Rightarrow> writeColoredInt ap opts buf i style
      | VBool b \<Rightarrow> writeColoredBool ap opts buf b style
      | VFloat64 f \<Rightarrow> writeColoredFloat ap lb opts buf f style
      | VTime t \<Rightarrow> writeColoredTime ap lb opts buf t (TimeFormat opts) style
      | VUint64 u \<Rightarrow> writeColoredUint ap opts buf u style
      | VDuration d \<Rightarrow> writeColoredDuration ap lb opts buf d style
      | VAny (AError msg (Some formatted)) \<Rightarrow> withColor ap opts buf style (\<lambda>w. ap w formatted)
      | VAny (AError msg None) \<Rightarrow> writeColoredString ap opts buf msg style
      | VAny (AStringer s) \<Rightarrow> writeColoredString ap opts buf s style
      | VAny (ALevel l) \<Rightarrow> writeColoredString ap opts buf (Level_String l) style
      | _ \<Rightarrow> writeColoredString ap opts buf (Value_String lb v) style)"

text \<open>A call of the configured hook, recorded in the ghost log.\<close>

definition callReplaceAttr ::
  "(string list \<Rightarrow> Attr \<Rightarrow> Attr) \<Rightarrow> encoder \<Rightarrow> string list \<Rightarrow> Attr \<Rightarrow> encoder \<times> Attr" where
  "callReplaceAttr f e gs a = (e\<lparr>hookCalls := hookCalls e @ [(gs, a)]\<rparr>, f gs a)"

text \<open>
  What the four built-in fields share: the attribute is passed to the hook with no groups,
  the answer is resolved, and a zero value elides the field (\<open>None\<close>).
\<close>

definition replaceBuiltin ::
  "lib \<Rightarrow> (string list \<Rightarrow> Attr \<Rightarrow> Attr) \<Rightarrow> encoder \<Rightarrow> Attr \<Rightarrow> encoder \<times> Value option" where
  "replaceBuiltin lb f e a =
     (let (e, attr) = callReplaceAttr f e [] a;
          v = Resolve lb (Value attr)
      in (e, if v = zero_Value then None else Some v))"

text \<open>The kind tests and type assertions of the built-in fields.\<close>

fun as_Time :: "Value \<Rightarrow> Time option" where
  "as_Time (VTime t) = Some t"
| "as_Time v = None"

fun as_Level :: "Value \<Rightarrow> int option" where
  "as_Level (VAny (ALevel l)) = Some l"
| "as_Level v = None"

fun as_Source :: "Value \<Rightarrow> slog_Source option option" where
  "as_Source (VAny (ASource p)) = Some p"
| "as_Source v = None"

definition writeTimestamp ::
  "('b \<Rightarrow> string \<Rightarrow> 'b) \<Rightarrow> lib \<Rightarrow> HandlerOptions \<Rightarrow> encoder \<Rightarrow> 'b \<Rightarrow> Time \<Rightarrow> encoder \<times> 'b" where
  "writeTimestamp ap lb opts e buf tt =
     (if IsZero tt then (e, buf)
      else case ReplaceAttr opts of
        None \<Rightarrow>
          (e, ap (writeColoredTime ap lb opts buf tt (TimeFormat opts) (Timestamp (Theme opts))) '' '')
      | Some f \<Rightarrow>
          (case replaceBuiltin lb f e (Attr TimeKey (VTime tt)) of
             (e, None) \<Rightarrow> (e, buf)
           | (e, Some v) \<Rightarrow>
               (case as_Time v of
                  None \<Rightarrow> (e, ap (writeColoredValue ap lb opts buf v (Timestamp (Theme opts))) '' '')
                | Some tt \<Rightarrow>
                    if IsZero tt then (e, buf)
                    else (e, ap (writeColoredTime ap lb opts buf tt (TimeFormat opts)
                                   (Timestamp (Theme opts))) '' ''))))"

text \<open>
  The first half of \<open>writeLevel\<close>: the level to name, the value \<open>val\<close> and the flag
  \<open>writeVal\<close>, or \<open>None\<close> when the hook elides the field.
\<close>

definition writeLevel_hook ::
  "lib \<Rightarrow> HandlerOptions \<Rightarrow> encoder \<Rightarrow> int \<Rightarrow> encoder \<times> (int \<times> Value \<times> bool) option" where
  "writeLevel_hook lb opts e l =
     (case ReplaceAttr opts of
        None \<Rightarrow> (e, Some (l, zero_Value, False))
      | Some f \<Rightarrow>
          (case replaceBuiltin lb f e (Attr LevelKey (VAny (ALevel l))) of
             (e, None) \<Rightarrow> (e, None)
           | (e, Some val) \<Rightarrow>
               (case as_Level val of
                  Some ll \<Rightarrow> (e, Some (ll, val, False))
                | None \<Rightarrow> (e, Some (l, val, True)))))"

text \<open>The \<open>switch\<close> of \<open>writeLevel\<close>: the style, the code and the distance to the anchor.\<close>

definition level_switch :: "HandlerOptions \<Rightarrow> int \<Rightarrow> string \<times> string \<times> int" where
  "level_switch opts l =
     (if l \<ge> slog_LevelError then (LevelError (Theme opts), ''ERR'', l - slog_LevelError)
      else if l \<ge> slog_LevelWarn then (LevelWarn (Theme opts), ''WRN'', l - slog_LevelWarn)
      else if l \<ge> slog_LevelInfo then (LevelInfo (Theme opts), ''INF'', l - slog_LevelInfo)
      else if l \<ge> slog_LevelDebug then (LevelDebug (Theme opts), ''DBG'', l - slog_LevelDebug)
      else (LevelDebug (Theme opts), ''DBG'', l - slog_LevelDebug))"

definition writeLevel ::
  "('b \<Rightarrow> string \<Rightarrow> 'b) \<Rightarrow> lib \<Rightarrow> HandlerOptions \<Rightarrow> encoder \<Rightarrow> 'b \<Rightarrow> int \<Rightarrow> encoder \<times> 'b" where
  "writeLevel ap lb opts e buf l =
     (case writeLevel_hook lb opts e l of
        (e, None) \<Rightarrow> (e, buf)
      | (e, Some (l, val, writeVal)) \<Rightarrow>
          (case level_switch opts l of
             (style, str, delta) \<Rightarrow>
               (e, ap (if writeVal then writeColoredValue ap lb opts buf val style
                       else writeColoredString ap opts buf
                              (if delta \<noteq> 0 then str @ fmt_plus_d delta else str) style)
                      '' '')))"

text \<open>
  The first half of \<open>writeSource\<close>: \<open>Inr\<close> the source to print, or \<open>Inl\<close> the early
  return, with the value to print in the place of the source, if any.
\<close>

definition writeSource_hook ::
  "lib \<Rightarrow> HandlerOptions \<Rightarrow> encoder \<Rightarrow> slog_Source \<Rightarrow> encoder \<times> (Value option + slog_Source)" where
  "writeSource_hook lb opts e src =
     (case ReplaceAttr opts of
        None \<Rightarrow> (e, Inr src)
      | Some f \<Rightarrow>
          (case replaceBuiltin lb f e (Attr SourceKey (VAny (ASource (Some src)))) of
             (e, None) \<Rightarrow> (e, Inl None)
           | (e, Some v) \<Rightarrow>
               (case as_Source v of
                  Some None \<Rightarrow> (e, Inl None)
                | Some (Some newsrc) \<Rightarrow> (e, Inr (src\<lparr>File := File newsrc, Line := Line newsrc\<rparr>))
                | None \<Rightarrow> (e, Inl (Some v)))))"

definition writeSource ::
  "('b \<Rightarrow> string \<Rightarrow> 'b) \<Rightarrow> lib \<Rightarrow> HandlerOptions \<Rightarrow> encoder \<Rightarrow> 'b \<Rightarrow> nat \<Rightarrow> string \<Rightarrow> encoder \<times> 'b" where
  "writeSource ap lb opts e buf pc cwd' =
     (let src = (if pc > 0 then CallersFrame lb pc else \<lparr>Function = [], File = [], Line = 0\<rparr>)
      in case writeSource_hook lb opts e src of
           (e, Inl None) \<Rightarrow> (e, buf)
         | (e, Inl (Some v)) \<Rightarrow>
             (e, ap (writeColoredValue ap lb opts buf v (Timestamp (Theme opts))) '' '')
         | (e, Inr src) \<Rightarrow>
             if File src = [] \<and> Line src = 0 then (e, buf)
             else
               (let src = (if cwd' \<noteq> [] then
                             (case filepath_Rel lb cwd' (File src) of
                                Some ff \<Rightarrow> src\<lparr>File := ff\<rparr>
                              | None \<Rightarrow> src)
                           else src)
                in (e, withColor ap opts buf (Source (Theme opts))
                         (\<lambda>b. ap (ap (ap (ap b (File src)) '':'') (itoa (Line src))) '' ''))))"

definition writeMessage ::
  "('b \<Rightarrow> string \<Rightarrow> 'b) \<Rightarrow> lib \<Rightarrow> HandlerOptions \<Rightarrow> encoder \<Rightarrow> 'b \<Rightarrow> int \<Rightarrow> string \<Rightarrow> encoder \<times> 'b" where
  "writeMessage ap lb opts e buf level msg =
     (let style = (if level < slog_LevelInfo then MessageDebug (Theme opts) else Message (Theme opts))
      in case ReplaceAttr opts of
           Some f \<Rightarrow>
             (case replaceBuiltin lb f e (Attr MessageKey (VString msg)) of
                (e, None) \<Rightarrow> (e, buf)
              | (e, Some v) \<Rightarrow> (e, writeColoredValue ap lb opts buf v style))
         | None \<Rightarrow> (e, writeColoredString ap opts buf msg style))"

fun is_KindGroup :: "Value \<Rightarrow> bool" where
  "is_KindGroup (VGroup as) = True"
| "is_KindGroup v = False"

fun writeHeaders ::
  "('b \<Rightarrow> string \<Rightarrow> 'b) \<Rightarrow> lib \<Rightarrow> HandlerOptions \<Rightarrow> encoder \<Rightarrow> 'b \<Rightarrow> Attr list \<Rightarrow> encoder \<times> 'b" where
  "writeHeaders ap lb opts e buf [] = (e, buf)"
| "writeHeaders ap lb opts e buf (a # headers) =
     (let (e, a) =
            (case ReplaceAttr opts of
               Some f \<Rightarrow>
                 if \<not> is_KindGroup (Value a) then
                   (let (e, a') = callReplaceAttr f e [] a
                    in (e, Attr (Key a') (Resolve lb (Value a'))))
                 else (e, a)
             | None \<Rightarrow> (e, a))
      in if Value a = zero_Value then writeHeaders ap lb opts e buf headers
         else writeHeaders ap lb opts e
                (ap (writeColoredValue ap lb opts buf (Value a) (Source (Theme opts))) '' '') headers)"

definition writeHeaderSeparator :: "('b \<Rightarrow> string \<Rightarrow> 'b) \<Rightarrow> HandlerOptions \<Rightarrow> 'b \<Rightarrow> 'b" where
  "writeHeaderSeparator ap opts buf = writeColoredString ap opts buf ''> '' (AttrKey (Theme opts))"

text \<open>
  A \<open>for _, a := range attrs\<close> loop whose body writes one attribute; it stops when the
  body does not return.
\<close>

fun for_attrs ::
  "(encoder \<Rightarrow> 'b \<Rightarrow> Attr \<Rightarrow> (encoder \<times> 'b) option) \<Rightarrow> encoder \<Rightarrow> 'b \<Rightarrow> Attr list
   \<Rightarrow> (encoder \<times> 'b) option" where
  "for_attrs body e buf [] = Some (e, buf)"
| "for_attrs body e buf (a # as) =
     (case body e buf a of
        None \<Rightarrow> None
      | Some (e, buf) \<Rightarrow> for_attrs body e buf as)"

fun is_error :: "Value \<Rightarrow> bool" where
  "is_error (VAny (AError msg formatted)) = True"
| "is_error v = False"

text \<open>
  The head of \<open>writeAttr\<close>: the value is resolved, an attribute that is not a group is
  passed to the hook with the encoder's current groups, and the answer is resolved again.
\<close>

definition writeAttr_resolve :: "lib \<Rightarrow> HandlerOptions \<Rightarrow> encoder \<Rightarrow> Attr \<Rightarrow> encoder \<times> Attr" where
  "writeAttr_resolve lb opts e a =
     (let a = Attr (Key a) (Resolve lb (Value a))
      in case ReplaceAttr opts of
           Some f \<Rightarrow>
             if \<not> is_KindGroup (Value a) then
               (let (e, a') = callReplaceAttr f e (enc_groups e) a
                in (e, Attr (Key a') (Resolve lb (Value a'))))
             else (e, a)
         | None \<Rightarrow> (e, a))"

text \<open>The tail of \<open>writeAttr\<close>: an attribute that is not a group is written.\<close>

definition writeAttr_leaf ::
  "('b \<Rightarrow> string \<Rightarrow> 'b) \<Rightarrow> lib \<Rightarrow> HandlerOptions \<Rightarrow> 'b \<Rightarrow> Attr \<Rightarrow> string \<Rightarrow> 'b" where
  "writeAttr_leaf ap lb opts buf a grp =
     (let buf = ap buf '' '';
          buf = withColor ap opts buf (AttrKey (Theme opts))
                  (\<lambda>buf. ap (ap (if grp \<noteq> [] then ap (ap buf grp) ''.'' else buf)
                                (Key a)) ''='');
          style = (if is_error (Value a) then AttrValueError (Theme opts)
                   else AttrValue (Theme opts))
      in writeColoredValue ap lb opts buf (Value a) style)"

text \<open>
  \<open>writeAttr\<close> calls itself on the members of a group, and the hook may answer any
  attribute with a new group, so the recursion need not end. The first argument bounds
  the nesting the call may descend; \<open>None\<close> is the call that has not returned within it.
\<close>

fun writeAttr ::
  "nat \<Rightarrow> ('b \<Rightarrow> string \<Rightarrow> 'b) \<Rightarrow> lib \<Rightarrow> HandlerOptions \<Rightarrow> encoder \<Rightarrow> 'b \<Rightarrow> Attr \<Rightarrow> string
   \<Rightarrow> (encoder \<times> 'b) option" where
  "writeAttr 0 ap lb opts e buf a grp = None"
| "writeAttr (Suc fuel) ap lb opts e buf a grp =
     (let (e, a) = writeAttr_resolve lb opts e a
      in if a = zero_Attr then Some (e, buf)
         else case Value a of
           VGroup members \<Rightarrow>
             (let subgroup = (if grp \<noteq> [] then grp @ ''.'' @ Key a else Key a);
                  e = (if ReplaceAttr opts \<noteq> None then e\<lparr>enc_groups := enc_groups e @ [Key a]\<rparr> else e)
              in case for_attrs (\<lambda>e buf attr. writeAttr fuel ap lb opts e buf attr subgroup)
                        e buf members of
                   None \<Rightarrow> None
                 | Some (e, buf) \<Rightarrow>
                     Some (if ReplaceAttr opts \<noteq> None
                           then e\<lparr>enc_groups := butlast (enc_groups e)\<rparr> else e,
                           buf))
         | value \<Rightarrow> Some (e, writeAttr_leaf ap lb opts buf a grp))"

section \<open>The handler\<close>

text \<open>
  The sink \<open>io.Writer\<close>: a write takes the sink's state and the bytes, and gives the new
  state and the error, if any.
\<close>

type_synonym 'w writer = "'w \<Rightarrow> string \<Rightarrow> 'w \<times> string option"

record 'w Handler =
  h_opts :: HandlerOptions
  h_out :: "'w writer"
  h_groupPrefix :: string
  h_groups :: slice
  h_context :: slice
  h_headers :: slice

text \<open>
  What a call runs in: the backing arrays of the byte buffers, of the attribute slices and
  of the handlers' group lists, the encoder pool, and the sink.
\<close>

record 'w state =
  st_bytes :: "char store"
  st_attrs :: "Attr store"
  st_groups :: "string store"
  st_pool :: "encoder list"
  st_sink :: 'w

definition time_DateTime :: string where
  "time_DateTime = ''2006-01-02 15:04:05''"

text \<open>
  \<open>NewHandler\<close>. A nil \<open>opts\<close> is \<open>None\<close>. The options record holds a level and a
  theme always; the defaults \<open>slog.LevelInfo\<close> and \<open>NewDefaultTheme()\<close> (the argument
  \<open>dflt\<close>) stand in a nil \<open>opts\<close>.
\<close>

definition NewHandler ::
  "Theme \<Rightarrow> 'w writer \<Rightarrow> HandlerOptions option \<Rightarrow> 'w state \<Rightarrow> 'w Handler \<times> 'w state" where
  "NewHandler dflt out' opts st =
     (let opts = (case opts of
                    None \<Rightarrow> \<lparr>AddSource = False, Level = slog_LevelInfo, NoColor = False,
                              TimeFormat = [], Theme = dflt, Headers = [], ReplaceAttr = None\<rparr>
                  | Some opts \<Rightarrow> opts);
          opts = (if TimeFormat opts = [] then opts\<lparr>TimeFormat := time_DateTime\<rparr> else opts);
          (as, hs) = smake zero_Attr (st_attrs st) (length (Headers opts))
      in (\<lparr>h_opts = opts, h_out = out', h_groupPrefix = [], h_groups = nil_slice,
           h_context = nil_slice, h_headers = hs\<rparr>,
          st\<lparr>st_attrs := as\<rparr>))"

definition Enabled :: "'w Handler \<Rightarrow> int \<Rightarrow> bool" where
  "Enabled h l = (l \<ge> Level (h_opts h))"

subsection \<open>The encoder pool\<close>

text \<open>\<open>encoderPool.New\<close>: empty buffers and groups, and a header slice of capacity 6.\<close>

definition encoderPool_New :: "'w state \<Rightarrow> encoder \<times> 'w state" where
  "encoderPool_New st =
     (let as = st_attrs st
      in (\<lparr>headerBuf = [], middleBuf = [], trailerBuf = [], enc_groups = [],
           enc_headers = \<lparr>s_ptr = length as, s_len = 0, s_cap = 6\<rparr>, hookCalls = []\<rparr>,
          st\<lparr>st_attrs := as @ [replicate 6 zero_Attr]\<rparr>))"

text \<open>\<open>encoderPool.Get\<close>: a pooled encoder when there is one, else a new one.\<close>

definition encoderPool_Get :: "'w state \<Rightarrow> encoder \<times> 'w state" where
  "encoderPool_Get st =
     (case st_pool st of
        [] \<Rightarrow> encoderPool_New st
      | e # es \<Rightarrow> (e, st\<lparr>st_pool := es\<rparr>))"

definition encoderPool_Put :: "encoder \<Rightarrow> 'w state \<Rightarrow> 'w state" where
  "encoderPool_Put e st = st\<lparr>st_pool := e # st_pool st\<rparr>"

definition newEncoder :: "'w Handler \<Rightarrow> 'w state \<Rightarrow> encoder \<times> 'w state" where
  "newEncoder h st =
     (let (e, st) = encoderPool_Get st
      in (if ReplaceAttr (h_opts h) \<noteq> None
          then e\<lparr>enc_groups := enc_groups e @ sread (st_groups st) (h_groups h)\<rparr>
          else e,
          st))"

definition free :: "encoder \<Rightarrow> 'w state \<Rightarrow> 'w state" where
  "free e st =
     encoderPool_Put (e\<lparr>headerBuf := [], middleBuf := [], trailerBuf := [], enc_groups := []\<rparr>) st"

definition LF :: char where
  "LF = CHR 0x0A"

definition NewLine :: "('b \<Rightarrow> string \<Rightarrow> 'b) \<Rightarrow> 'b \<Rightarrow> 'b" where
  "NewLine ap buf = ap buf [LF]"

subsection \<open>The buffer type\<close>

text \<open>Modelled from the spec: \<open>buffer.copy\<close>, which appends the bytes of another buffer.\<close>

definition buffer_copy :: "string \<Rightarrow> string \<Rightarrow> string" where
  "buffer_copy b src = b @ src"

text \<open>
  Modelled from the spec: \<open>buffer.WriteTo\<close>, which writes the bytes of the buffer to the
  sink and returns the sink's error.
\<close>

definition WriteTo :: "string \<Rightarrow> 'w writer \<Rightarrow> 'w \<Rightarrow> 'w \<times> string option" where
  "WriteTo b dst w = dst w b"

text \<open>
  Modelled from the spec: \<open>buffer.Clip\<close>, which removes the spare capacity of the buffer
  (\<open>slices.Clip\<close>: the same array and length, the capacity cut to the length).
\<close>

definition Clip :: "slice \<Rightarrow> slice" where
  "Clip b = b\<lparr>s_cap := s_len b\<rparr>"

text \<open>Appending to a buffer that lives in the store, as \<open>WithAttrs\<close> does to the context.\<close>

definition ap_store :: "lib \<Rightarrow> char store \<times> slice \<Rightarrow> string \<Rightarrow> char store \<times> slice" where
  "ap_store lb b s = go_append (CHR 0x00) (growslice lb) (fst b) (snd b) s"

definition ap_list :: "string \<Rightarrow> string \<Rightarrow> string" where
  "ap_list b s = b @ s"

subsection \<open>Handle\<close>

record Record =
  rec_Time :: Time
  rec_Level :: int
  rec_Message :: string
  rec_PC :: nat
  rec_Attrs :: "Attr list"

text \<open>
  \<open>headerBuf := &enc.headerBuf\<close> and \<open>middleBuf := &enc.middleBuf\<close>: a write through
  the pointer is a write to the encoder's field.
\<close>

definition via_headerBuf :: "(encoder \<Rightarrow> string \<Rightarrow> encoder \<times> string) \<Rightarrow> encoder \<Rightarrow> encoder" where
  "via_headerBuf f e = (let (e', b) = f e (headerBuf e) in e'\<lparr>headerBuf := b\<rparr>)"

definition via_middleBuf :: "(encoder \<Rightarrow> string \<Rightarrow> encoder \<times> string) \<Rightarrow> encoder \<Rightarrow> encoder" where
  "via_middleBuf f e = (let (e', b) = f e (middleBuf e) in e'\<lparr>middleBuf := b\<rparr>)"

text \<open>
  The start of \<open>Handle\<close>, up to the copy of the context into the middle buffer; the
  result carries \<open>headerLen\<close>.
\<close>

definition Handle_begin :: "lib \<Rightarrow> 'w Handler \<Rightarrow> Record \<Rightarrow> 'w state \<Rightarrow> encoder \<Rightarrow> encoder \<times> nat" where
  "Handle_begin lb h rec st enc =
     (let opts = h_opts h;
          enc = via_headerBuf (\<lambda>e b. writeTimestamp ap_list lb opts e b (rec_Time rec)) enc;
          enc = via_headerBuf (\<lambda>e b. writeLevel ap_list lb opts e b (rec_Level rec)) enc;
          headerLen = length (headerBuf enc);
          enc = (if AddSource opts
                 then via_headerBuf (\<lambda>e b. writeSource ap_list lb opts e b (rec_PC rec) (cwd lb)) enc
                 else enc);
          enc = via_middleBuf (\<lambda>e b. writeMessage ap_list lb opts e b (rec_Level rec) (rec_Message rec)) enc;
          enc = enc\<lparr>middleBuf := buffer_copy (middleBuf enc) (sread (st_bytes st) (h_context h))\<rparr>
      in (enc, headerLen))"

text \<open>
  The callback of \<open>rec.Attrs\<close>, for one attribute. Its variables are the encoder, the
  attribute store, the slice \<open>headers\<close> and the flag \<open>localHeaders\<close>.
\<close>

definition Handle_attr ::
  "nat \<Rightarrow> lib \<Rightarrow> 'w Handler \<Rightarrow> encoder \<times> Attr store \<times> slice \<times> bool \<Rightarrow> Attr
   \<Rightarrow> fault + (encoder \<times> Attr store \<times> slice \<times> bool)" where
  "Handle_attr fuel lb h s a =
     (case s of (enc, as, headers, localHeaders) \<Rightarrow>
        let idx = IndexFunc (Headers (h_opts h)) (\<lambda>s. s = Key a)
        in if idx \<ge> 0 then
             (let (as, headers) =
                    (if \<not> localHeaders
                     then go_append zero_Attr (growslice lb) as (enc_headers enc) (sread as (h_headers h))
                     else (as, headers))
              in case swrite as headers (nat idx) a of
                   Inl f \<Rightarrow> Inl f
                 | Inr as \<Rightarrow> Inr (enc, as, headers, True))
           else
             (let offset = length (middleBuf enc)
              in case writeAttr fuel ap_list lb (h_opts h) enc (middleBuf enc) a (h_groupPrefix h) of
                   None \<Rightarrow> Inl FuelExhausted
                 | Some (enc, mb) \<Rightarrow>
                     (let enc = enc\<lparr>middleBuf := mb\<rparr>;
                          lastAttr = drop offset (middleBuf enc)
                      in if LF \<in> set lastAttr
                         then Inr (enc\<lparr>trailerBuf := trailerBuf enc @ lastAttr,
                                       middleBuf := take offset (middleBuf enc)\<rparr>,
                                   as, headers, localHeaders)
                         else Inr (enc, as, headers, localHeaders))))"

fun Handle_attrs ::
  "nat \<Rightarrow> lib \<Rightarrow> 'w Handler \<Rightarrow> encoder \<times> Attr store \<times> slice \<times> bool \<Rightarrow> Attr list
   \<Rightarrow> fault + (encoder \<times> Attr store \<times> slice \<times> bool)" where
  "Handle_attrs fuel lb h s [] = Inr s"
| "Handle_attrs fuel lb h s (a # as) =
     (case Handle_attr fuel lb h s a of
        Inl f \<Rightarrow> Inl f
      | Inr s \<Rightarrow> Handle_attrs fuel lb h s as)"

text \<open>After the attributes: the header slots and the divider.\<close>

definition Handle_headers ::
  "lib \<Rightarrow> 'w Handler \<Rightarrow> nat \<Rightarrow> encoder \<Rightarrow> Attr store \<Rightarrow> slice \<Rightarrow> encoder" where
  "Handle_headers lb h headerLen enc as headers =
     (let opts = h_opts h;
          enc = (if s_len headers > 0
                 then via_headerBuf (\<lambda>e b. writeHeaders ap_list lb opts e b (sread as headers)) enc
                 else enc)
      in if length (headerBuf enc) > headerLen
         then enc\<lparr>headerBuf := writeHeaderSeparator ap_list opts (headerBuf enc)\<rparr>
         else enc)"

text \<open>The line terminator.\<close>

definition Handle_terminate :: "encoder \<Rightarrow> encoder" where
  "Handle_terminate enc =
     (if length (trailerBuf enc) = 0
      then enc\<lparr>middleBuf := NewLine ap_list (middleBuf enc)\<rparr>
      else enc\<lparr>trailerBuf := NewLine ap_list (trailerBuf enc)\<rparr>)"

text \<open>
  The three writes to the sink. The result is the error returned by \<open>Handle\<close>
  (\<open>None\<close> for nil) and the state it leaves.
\<close>

definition Handle_flush :: "'w Handler \<Rightarrow> encoder \<Rightarrow> 'w state \<Rightarrow> string option \<times> 'w state" where
  "Handle_flush h enc st =
     (case WriteTo (headerBuf enc) (h_out h) (st_sink st) of
        (w, Some err) \<Rightarrow> (Some err, st\<lparr>st_sink := w\<rparr>)
      | (w, None) \<Rightarrow>
          (case WriteTo (middleBuf enc) (h_out h) w of
             (w, Some err) \<Rightarrow> (Some err, st\<lparr>st_sink := w\<rparr>)
           | (w, None) \<Rightarrow>
               (case WriteTo (trailerBuf enc) (h_out h) w of
                  (w, Some err) \<Rightarrow> (Some err, st\<lparr>st_sink := w\<rparr>)
                | (w, None) \<Rightarrow> (None, free enc (st\<lparr>st_sink := w\<rparr>)))))"

text \<open>
  \<open>Handle\<close> up to the writes: the encoder whose three buffers hold the line, and the
  state.
\<close>

definition Handle_encode ::
  "nat \<Rightarrow> lib \<Rightarrow> 'w Handler \<Rightarrow> Record \<Rightarrow> 'w state \<Rightarrow> fault + (encoder \<times> 'w state)" where
  "Handle_encode fuel lb h rec st =
     (let (enc, st) = newEncoder h st;
          (enc, headerLen) = Handle_begin lb h rec st enc
      in case Handle_attrs fuel lb h (enc, st_attrs st, h_headers h, False) (rec_Attrs rec) of
           Inl f \<Rightarrow> Inl f
         | Inr (enc, as, headers, localHeaders) \<Rightarrow>
             Inr (Handle_terminate (Handle_headers lb h headerLen enc as headers),
                  st\<lparr>st_attrs := as\<rparr>))"

definition Handle ::
  "nat \<Rightarrow> lib \<Rightarrow> 'w Handler \<Rightarrow> Record \<Rightarrow> 'w state \<Rightarrow> fault + (string option \<times> 'w state)" where
  "Handle fuel lb h rec st =
     (case Handle_encode fuel lb h rec st of
        Inl f \<Rightarrow> Inl f
      | Inr (enc, st) \<Rightarrow> Inr (Handle_flush h enc st))"

subsection \<open>Derivation\<close>

text \<open>
  \<open>extractHeaders\<close>. The loop's variables are the attribute store, the slice
  \<open>headers\<close> and the flag \<open>changed\<close>; the list returned last is the caller's slice
  \<open>attrs\<close> as the loop leaves it.
\<close>

fun extractHeaders_loop ::
  "'w Handler \<Rightarrow> Attr store \<Rightarrow> slice \<Rightarrow> bool \<Rightarrow> Attr list \<Rightarrow> fault + (slice \<times> Attr store \<times> Attr list)" where
  "extractHeaders_loop h as headers changed [] = Inr (headers, as, [])"
| "extractHeaders_loop h as headers changed (attr # rest) =
     (let idx = IndexFunc (Headers (h_opts h)) (\<lambda>s. s = Key attr)
      in if idx \<ge> 0 then
           (let (as, headers) =
                  (if \<not> changed then
                     (let (as, hs) = smake zero_Attr as (s_len (h_headers h))
                      in (scopy as hs (h_headers h), hs))
                   else (as, headers))
            in case swrite as headers (nat idx) attr of
                 Inl f \<Rightarrow> Inl f
               | Inr as \<Rightarrow>
                   (case extractHeaders_loop h as headers True rest of
                      Inl f \<Rightarrow> Inl f
                    | Inr (headers, as, rest) \<Rightarrow> Inr (headers, as, zero_Attr # rest)))
         else
           (case extractHeaders_loop h as headers changed rest of
              Inl f \<Rightarrow> Inl f
            | Inr (headers, as, rest) \<Rightarrow> Inr (headers, as, attr # rest)))"

definition extractHeaders ::
  "'w Handler \<Rightarrow> Attr store \<Rightarrow> Attr list \<Rightarrow> fault + (slice \<times> Attr store \<times> Attr list)" where
  "extractHeaders h as attrs = extractHeaders_loop h as (h_headers h) False attrs"

text \<open>
  \<open>WithAttrs\<close>. The result is the derived handler, the caller's slice \<open>attrs\<close> as the
  call leaves it, and the state. The encoder taken from the pool is not given back.
\<close>

definition WithAttrs ::
  "nat \<Rightarrow> lib \<Rightarrow> 'w Handler \<Rightarrow> Attr list \<Rightarrow> 'w state
   \<Rightarrow> fault + ('w Handler \<times> Attr list \<times> 'w state)" where
  "WithAttrs fuel lb h attrs st =
     (case extractHeaders h (st_attrs st) attrs of
        Inl f \<Rightarrow> Inl f
      | Inr (headers, as, attrs) \<Rightarrow>
          (let st = st\<lparr>st_attrs := as\<rparr>;
               newCtx = h_context h;
               (enc, st) = newEncoder h st
           in case for_attrs (\<lambda>e buf a. writeAttr fuel (ap_store lb) lb (h_opts h) e buf a (h_groupPrefix h))
                     enc (st_bytes st, newCtx) attrs of
                None \<Rightarrow> Inl FuelExhausted
              | Some (enc, bs, newCtx) \<Rightarrow>
                  Inr (\<lparr>h_opts = h_opts h, h_out = h_out h, h_groupPrefix = h_groupPrefix h,
                        h_groups = h_groups h, h_context = Clip newCtx, h_headers = headers\<rparr>,
                       attrs, st\<lparr>st_bytes := bs\<rparr>)))"

text \<open>
  \<open>WithGroup\<close>. The new list of groups is \<open>append(h.groups, name)\<close>: when the parent's
  slice has spare capacity the name is written into the parent's array.
\<close>

definition WithGroup :: "lib \<Rightarrow> 'w Handler \<Rightarrow> string \<Rightarrow> 'w state \<Rightarrow> 'w Handler \<times> 'w state" where
  "WithGroup lb h name st =
     (let name = TrimSpace lb name;
          groupPrefix = (if h_groupPrefix h \<noteq> [] then h_groupPrefix h @ ''.'' @ name else name);
          (gs, groups) = go_append [] (growslice lb) (st_groups st) (h_groups h) [name]
      in (\<lparr>h_opts = h_opts h, h_out = h_out h, h_groupPrefix = groupPrefix,
           h_groups = groups, h_context = h_context h, h_headers = h_headers h\<rparr>,
          st\<lparr>st_groups := gs\<rparr>))"

section \<open>Concrete collaborators\<close>

text \<open>
  A library, a theme, two sinks and an initial state to run the handler on: a sink that
  keeps what is written to it, as \<open>bytes.Buffer\<close> does, and one whose writes all fail.
\<close>

definition demo_lib :: lib where
  "demo_lib =
     \<lparr>AppendTime = (\<lambda>t f. ''12:00''), AppendFloat = (\<lambda>f. ''1.5''), AppendDuration = (\<lambda>d. ''1s''),
      Sprint = (\<lambda>v. ''{}''), TypeName = (\<lambda>v. ''T''),
      CallersFrame = (\<lambda>pc. \<lparr>Function = ''main.main'', File = ''main.go'', Line = 7\<rparr>),
      filepath_Rel = (\<lambda>base targ. None), cwd = [], growslice = (\<lambda>c n. 2 * n),
      TrimSpace = (\<lambda>s. s)\<rparr>"

definition demo_theme :: Theme where
  "demo_theme =
     \<lparr>Timestamp = ''<t>'', Source = ''<s>'', Message = ''<m>'', MessageDebug = ''<d>'',
      AttrKey = ''<k>'', AttrValue = ''<v>'', AttrValueError = ''<e>'', LevelError = ''<E>'',
      LevelWarn = ''<W>'', LevelInfo = ''<I>'', LevelDebug = ''<D>''\<rparr>"

definition demo_opts :: HandlerOptions where
  "demo_opts =
     \<lparr>AddSource = False, Level = slog_LevelInfo, NoColor = True, TimeFormat = [],
      Theme = demo_theme, Headers = [], ReplaceAttr = None\<rparr>"

definition buffer_writer :: "string writer" where
  "buffer_writer w p = (w @ p, None)"

definition failing_writer :: "string writer" where
  "failing_writer w p = (w, Some ''nope'')"

definition state0 :: "string state" where
  "state0 = \<lparr>st_bytes = [], st_attrs = [], st_groups = [], st_pool = [], st_sink = []\<rparr>"

definition encoder0 :: encoder where
  "encoder0 =
     \<lparr>headerBuf = [], middleBuf = [], trailerBuf = [], enc_groups = [],
      enc_headers = nil_slice, hookCalls = []\<rparr>"

section \<open>The level text, as specified\<close>

text \<open>
  The label of a level in the words of the specification: the nearest named anchor at or
  below the level, bare when the level is the anchor and followed by \<open>+\<close> and the
  distance otherwise; below the lowest anchor, \<open>DBG\<close> followed by \<open>-\<close> and the
  distance.
\<close>

definition spec_anchor :: "int \<Rightarrow> (int \<times> string) option" where
  "spec_anchor l =
     (if slog_LevelError \<le> l then Some (slog_LevelError, ''ERR'')
      else if slog_LevelWarn \<le> l then Some (slog_LevelWarn, ''WRN'')
      else if slog_LevelInfo \<le> l then Some (slog_LevelInfo, ''INF'')
      else if slog_LevelDebug \<le> l then Some (slog_LevelDebug, ''DBG'')
      else None)"

definition spec_level_text :: "int \<Rightarrow> string" where
  "spec_level_text l =
     (case spec_anchor l of
        Some (a, code) \<Rightarrow> if l = a then code else code @ ''+'' @ utoa (nat (l - a))
      | None \<Rightarrow> ''DBG-'' @ utoa (nat (slog_LevelDebug - l)))"

definition level_style :: "HandlerOptions \<Rightarrow> int \<Rightarrow> string" where
  "level_style opts l =
     (if slog_LevelError \<le> l then LevelError (Theme opts)
      else if slog_LevelWarn \<le> l then LevelWarn (Theme opts)
      else if slog_LevelInfo \<le> l then LevelInfo (Theme opts)
      else LevelDebug (Theme opts))"

section \<open>Per-event attributes, one by one\<close>



definition set_bufs :: "string \<Rightarrow> string \<Rightarrow> encoder \<Rightarrow> encoder" where
  "set_bufs m t e = e\<lparr>middleBuf := m, trailerBuf := t\<rparr>"

section \<open>Well-formed states\<close>

text \<open>
  A slice is valid in a store when its window lies inside an array of the store; a slice
  of no capacity has no array.
\<close>

definition slice_ok :: "'a store \<Rightarrow> slice \<Rightarrow> bool" where
  "slice_ok st sl =
     (s_len sl \<le> s_cap sl
      \<and> (s_cap sl = 0 \<or> (s_ptr sl < length st \<and> s_cap sl \<le> length (st ! s_ptr sl))))"

text \<open>
  A pooled encoder is as \<open>encoderPool.New\<close> and \<open>free\<close> leave it: empty buffers and
  groups, and a header slice of length 0 on an array of the store.
\<close>

definition encoder_ok :: "Attr store \<Rightarrow> encoder \<Rightarrow> bool" where
  "encoder_ok as e =
     (headerBuf e = [] \<and> middleBuf e = [] \<and> trailerBuf e = [] \<and> enc_groups e = []
      \<and> s_len (enc_headers e) = 0 \<and> slice_ok as (enc_headers e)
      \<and> s_ptr (enc_headers e) < length as)"

definition pool_ok :: "'w state \<Rightarrow> bool" where
  "pool_ok st = list_all (encoder_ok (st_attrs st)) (st_pool st)"

text \<open>
  A handler is as \<open>NewHandler\<close>, \<open>WithAttrs\<close> and \<open>WithGroup\<close> make it: one header
  slot for each configured key, and a context without spare capacity.
\<close>

definition handler_ok :: "'w state \<Rightarrow> 'w Handler \<Rightarrow> bool" where
  "handler_ok st h =
     (slice_ok (st_attrs st) (h_headers h)
      \<and> s_len (h_headers h) = length (Headers (h_opts h))
      \<and> slice_ok (st_bytes st) (h_context h)
      \<and> s_cap (h_context h) = s_len (h_context h))"

text \<open>No pooled encoder keeps its headers in the array of the handler's header slots.\<close>

definition headers_apart :: "'w state \<Rightarrow> 'w Handler \<Rightarrow> bool" where
  "headers_apart st h =
     list_all (\<lambda>e. s_len (h_headers h) = 0 \<or> s_ptr (enc_headers e) \<noteq> s_ptr (h_headers h))
       (st_pool st)"

text \<open>
  The header slots of one render, as specified: the inherited slots, with the slot of a
  configured key taking each per-event attribute of that key, in the order of the event.
\<close>

fun override_slots :: "string list \<Rightarrow> Attr list \<Rightarrow> Attr list \<Rightarrow> Attr list" where
  "override_slots keys slots [] = slots"
| "override_slots keys slots (a # as) =
     override_slots keys
       (let idx = IndexFunc keys (\<lambda>s. s = Key a)
        in if idx \<ge> 0 then slots[nat idx := a] else slots) as"

text \<open>
  What holds of the attribute store, the slice \<open>headers\<close> and the flag
  \<open>localHeaders\<close> during the callback of \<open>rec.Attrs\<close>, for the store \<open>as0\<close> at
  the start and the encoder's header slice \<open>e0\<close>: only the encoder's array and arrays
  allocated since have changed, and \<open>headers\<close> is the handler's slice until the first
  header attribute, the encoder's array or a fresh one after it.
\<close>

definition local_headers_inv ::
  "'w Handler \<Rightarrow> slice \<Rightarrow> Attr store \<Rightarrow> Attr store \<times> slice \<times> bool \<Rightarrow> bool" where
  "local_headers_inv h e0 as0 s =
     (case s of (as, hs, lh) \<Rightarrow>
        length as0 \<le> length as
        \<and> (\<forall>p < length as0. length (as ! p) = length (as0 ! p))
        \<and> (\<forall>p < length as0. p \<noteq> s_ptr e0 \<longrightarrow> as ! p = as0 ! p)
        \<and> (if lh then slice_ok as hs \<and> s_len hs = s_len (h_headers h)
                      \<and> (s_ptr hs = s_ptr e0 \<or> length as0 \<le> s_ptr hs)
            else as = as0 \<and> hs = h_headers h))"

section \<open>Rendered output\<close>

text \<open>What a call of \<open>Handle\<close> has left in a sink that keeps what is written to it.\<close>

definition rendered :: "fault + (string option \<times> string state) \<Rightarrow> string" where
  "rendered r = (case r of Inl f \<Rightarrow> [] | Inr (err, st) \<Rightarrow> st_sink st)"


section \<open>Concrete handlers and events\<close>

definition handler1 :: "string Handler" where
  "handler1 = fst (NewHandler demo_theme buffer_writer (Some demo_opts) state0)"

definition state1 :: "string state" where
  "state1 = snd (NewHandler demo_theme buffer_writer (Some demo_opts) state0)"



text \<open>A handler whose context holds a line break, bound by \<open>WithAttrs\<close>.\<close>

definition handler_ctx :: "string Handler" where
  "handler_ctx =
     (case WithAttrs (Suc 0) demo_lib handler1 [Attr ''c'' (VString (''1'' @ [LF] @ ''2''))] state1 of
        Inr (h, attrs, st) \<Rightarrow> h
      | Inl f \<Rightarrow> handler1)"

definition state_ctx :: "string state" where
  "state_ctx =
     (case WithAttrs (Suc 0) demo_lib handler1 [Attr ''c'' (VString (''1'' @ [LF] @ ''2''))] state1 of
        Inr (h, attrs, st) \<Rightarrow> st
      | Inl f \<Rightarrow> state1)"

text \<open>The handler of the header example: header keys \<open>foo\<close> and \<open>bar\<close>.\<close>

definition handler_foo_bar :: "string Handler" where
  "handler_foo_bar =
     fst (NewHandler demo_theme buffer_writer (Some (demo_opts\<lparr>Headers := [''foo'', ''bar'']\<rparr>)) state0)"

definition state_foo_bar :: "string state" where
  "state_foo_bar =
     snd (NewHandler demo_theme buffer_writer (Some (demo_opts\<lparr>Headers := [''foo'', ''bar'']\<rparr>)) state0)"

definition rec_headers :: Record where
  "rec_headers = \<lparr>rec_Time = Time 0 0, rec_Level = 0, rec_Message = ''with headers'', rec_PC = 0,
                  rec_Attrs = [Attr ''bar'' (VString ''baz''), Attr ''baz'' (VString ''foo'')]\<rparr>"

text \<open>A handler whose sink fails, and a state with one encoder in the pool.\<close>

definition handler_failing :: "string Handler" where
  "handler_failing = handler1\<lparr>h_out := failing_writer\<rparr>"

definition pooled_encoder :: encoder where
  "pooled_encoder = encoder0\<lparr>enc_headers := \<lparr>s_ptr = 1, s_len = 0, s_cap = 6\<rparr>\<rparr>"

definition state_pooled :: "string state" where
  "state_pooled = state1\<lparr>st_attrs := st_attrs state1 @ [replicate 6 zero_Attr],
                         st_pool := [pooled_encoder]\<rparr>"

definition rec_foobar :: Record where
  "rec_foobar = \<lparr>rec_Time = Time 0 0, rec_Level = 0, rec_Message = ''foobar'', rec_PC = 0,
                 rec_Attrs = []\<rparr>"

text \<open>An event with one group of empty key, for a handler under the group \<open>g\<close>.\<close>

definition rec_inline_group :: Record where
  "rec_inline_group = \<lparr>rec_Time = Time 0 0, rec_Level = 0, rec_Message = ''foobar'', rec_PC = 0,
                       rec_Attrs = [Attr [] (VGroup [Attr ''foo'' (VString ''bar'')])]\<rparr>"

text \<open>The three buffers of an encoded line.\<close>

definition sections :: "fault + (encoder \<times> 'w state) \<Rightarrow> string \<times> string \<times> string" where
  "sections r =
     (case r of
        Inl f \<Rightarrow> ([], [], [])
      | Inr (enc, st) \<Rightarrow> (headerBuf enc, middleBuf enc, trailerBuf enc))"

section \<open>Stores over time\<close>

text \<open>A store extends another when it holds the same arrays, unchanged, and maybe more.\<close>

definition store_extends :: "'a store \<Rightarrow> 'a store \<Rightarrow> bool" where
  "store_extends st st' = (take (length st) st' = st)"

text \<open>
  How a buffer in the store stands to a list of bytes while \<open>WithAttrs\<close> appends to
  the context \<open>ctx0\<close> of a handler, for the store \<open>bs0\<close> at the start: the arrays
  of \<open>bs0\<close> are as they were, the buffer reads as the list, and the buffer is still the
  handler's slice or lives in an array allocated since.
\<close>

definition ctx_rel :: "char store \<Rightarrow> slice \<Rightarrow> char store \<times> slice \<Rightarrow> string \<Rightarrow> bool" where
  "ctx_rel bs0 ctx0 b c =
     (store_extends bs0 (fst b) \<and> slice_ok (fst b) (snd b) \<and> sread (fst b) (snd b) = c
      \<and> (snd b = ctx0 \<or> length bs0 \<le> s_ptr (snd b)))"

text \<open>
  The bytes a derivation binds: what \<open>writeAttr\<close> writes for the attributes, in order,
  under the handler's prefix (here, to an empty buffer).
\<close>

definition bound_bytes ::
  "nat \<Rightarrow> lib \<Rightarrow> 'w Handler \<Rightarrow> encoder \<Rightarrow> Attr list \<Rightarrow> (encoder \<times> string) option" where
  "bound_bytes fuel lb h enc attrs =
     for_attrs (\<lambda>e buf a. writeAttr fuel ap_list lb (h_opts h) e buf a (h_groupPrefix h)) enc [] attrs"

section \<open>Sequences of renders and derivations\<close>

text \<open>The persistent context and the header slots of a handler, as the store holds them.\<close>

definition context_bytes :: "'w state \<Rightarrow> 'w Handler \<Rightarrow> string" where
  "context_bytes st h = sread (st_bytes st) (h_context h)"

definition header_slots :: "'w state \<Rightarrow> 'w Handler \<Rightarrow> Attr list" where
  "header_slots st h = sread (st_attrs st) (h_headers h)"

text \<open>
  A program over handlers. The handlers made so far are kept in a table; an operation
  renders an event through a handler of the table, or derives a handler from one with
  \<open>WithAttrs\<close> or \<open>WithGroup\<close> and adds it at the end of the table. An operation that
  names no handler of the table does nothing.
\<close>

datatype op = Render nat Record | DeriveAttrs nat "Attr list" | DeriveGroup nat string

fun step ::
  "nat \<Rightarrow> lib \<Rightarrow> op \<Rightarrow> 'w Handler list \<times> 'w state \<Rightarrow> fault + ('w Handler list \<times> 'w state)" where
  "step fuel lb (Render i rec) (hs, st) =
     (if i < length hs then
        (case Handle fuel lb (hs ! i) rec st of
           Inl f \<Rightarrow> Inl f
         | Inr (err, st') \<Rightarrow> Inr (hs, st'))
      else Inr (hs, st))"
| "step fuel lb (DeriveAttrs i attrs) (hs, st) =
     (if i < length hs then
        (case WithAttrs fuel lb (hs ! i) attrs st of
           Inl f \<Rightarrow> Inl f
         | Inr (h', attrs', st') \<Rightarrow> Inr (hs @ [h'], st'))
      else Inr (hs, st))"
| "step fuel lb (DeriveGroup i name) (hs, st) =
     (if i < length hs then
        (let (h', st') = WithGroup lb (hs ! i) name st in Inr (hs @ [h'], st'))
      else Inr (hs, st))"

fun run ::
  "nat \<Rightarrow> lib \<Rightarrow> op list \<Rightarrow> 'w Handler list \<times> 'w state \<Rightarrow> fault + ('w Handler list \<times> 'w state)" where
  "run fuel lb [] w = Inr w"
| "run fuel lb (x # xs) w =
     (case step fuel lb x w of
        Inl f \<Rightarrow> Inl f
      | Inr w' \<Rightarrow> run fuel lb xs w')"

text \<open>The pool and every handler of the table are well formed.\<close>

definition world_ok :: "'w Handler list \<times> 'w state \<Rightarrow> bool" where
  "world_ok w =
     (pool_ok (snd w) \<and> list_all (\<lambda>h. handler_ok (snd w) h \<and> headers_apart (snd w) h) (fst w))"

text \<open>
  The handlers of the test of header state: \<open>h2\<close> binds \<open>foo=baz\<close> on the handler of
  the header example, and \<open>h3\<close> binds \<open>foo=buz\<close> on \<open>h2\<close>. The events carry no
  attribute, or \<open>foo=biz\<close>.
\<close>

definition derived ::
  "string Handler \<Rightarrow> Attr list \<Rightarrow> string state \<Rightarrow> string Handler \<times> Attr list \<times> string state" where
  "derived h attrs st =
     (case WithAttrs (Suc 0) demo_lib h attrs st of
        Inr r \<Rightarrow> r
      | Inl f \<Rightarrow> (h, attrs, st))"

definition handler_foo_baz :: "string Handler" where
  "handler_foo_baz = fst (derived handler_foo_bar [Attr ''foo'' (VString ''baz'')] state_foo_bar)"

definition state_foo_baz :: "string state" where
  "state_foo_baz = snd (snd (derived handler_foo_bar [Attr ''foo'' (VString ''baz'')] state_foo_bar))"

definition handler_foo_buz :: "string Handler" where
  "handler_foo_buz = fst (derived handler_foo_baz [Attr ''foo'' (VString ''buz'')] state_foo_baz)"

definition state_foo_buz :: "string state" where
  "state_foo_buz = snd (snd (derived handler_foo_baz [Attr ''foo'' (VString ''buz'')] state_foo_baz))"

definition rec_no_attrs :: Record where
  "rec_no_attrs = \<lparr>rec_Time = Time 0 0, rec_Level = 0, rec_Message = ''with headers'', rec_PC = 0,
                   rec_Attrs = []\<rparr>"

definition rec_foo_biz :: Record where
  "rec_foo_biz = rec_no_attrs\<lparr>rec_Attrs := [Attr ''foo'' (VString ''biz'')]\<rparr>"

text \<open>The world a program leaves, or the world it started in when it faults.\<close>

definition after ::
  "op list \<Rightarrow> string Handler list \<times> string state \<Rightarrow> string Handler list \<times> string state" where
  "after xs w = (case run (Suc 0) demo_lib xs w of Inr w' \<Rightarrow> w' | Inl f \<Rightarrow> w)"

text \<open>
  Two children of the handler with a context: \<open>child_a\<close> binds \<open>a=1\<close>; a render and a
  derivation from \<open>child_a\<close> follow; \<open>child_b\<close> binds \<open>b=2\<close> on the same parent;
  renders of both and a third derivation from the parent follow.
\<close>

definition child_a :: "string Handler" where
  "child_a = fst (derived handler_ctx [Attr ''a'' (VInt64 1)] state_ctx)"

definition state_a :: "string state" where
  "state_a = snd (snd (derived handler_ctx [Attr ''a'' (VInt64 1)] state_ctx))"

definition ops_a :: "op list" where
  "ops_a = [Render 1 rec_foobar, DeriveAttrs 1 [Attr ''d'' (VInt64 4)], Render 2 rec_foobar]"

definition world_a :: "string Handler list \<times> string state" where
  "world_a = after ops_a ([handler_ctx, child_a], state_a)"

definition child_b :: "string Handler" where
  "child_b = fst (derived handler_ctx [Attr ''b'' (VInt64 2)] (snd world_a))"

definition state_b :: "string state" where
  "state_b = snd (snd (derived handler_ctx [Attr ''b'' (VInt64 2)] (snd world_a)))"

definition ops_b :: "op list" where
  "ops_b = [Render 3 rec_foobar, DeriveAttrs 0 [Attr ''e'' (VInt64 5)], Render 1 rec_foobar,
            DeriveAttrs 3 [Attr ''f'' (VInt64 6)], Render 0 rec_foobar]"

definition world_b :: "string Handler list \<times> string state" where
  "world_b = after ops_b (fst world_a @ [child_b], state_b)"

section \<open>Properties\<close>

lemmas level_defs = slog_LevelDebug_def slog_LevelInfo_def slog_LevelWarn_def slog_LevelError_def

subsection \<open>The encoder only appends\<close>

text \<open>
  Every function of the encoder uses its buffer through the append operation alone. So a
  relation between two buffers that each append keeps is kept by the whole function, and
  the encoder state it returns is the same on both sides.
\<close>

lemma withColor_rel:
  assumes "\<And>b c s. R b c \<Longrightarrow> R (ap1 b s) (ap2 c s)"
    and "\<And>b c. R b c \<Longrightarrow> R (f1 b) (f2 c)"
    and "R b c"
  shows "R (withColor ap1 opts b col f1) (withColor ap2 opts c col f2)"
  using assms by (simp add: withColor_def)

lemma withColor_ap_rel:
  assumes "\<And>b c s. R b c \<Longrightarrow> R (ap1 b s) (ap2 c s)" and "R b c"
  shows "R (withColor ap1 opts b col (\<lambda>w. ap1 w s)) (withColor ap2 opts c col (\<lambda>w. ap2 w s))"
  using assms by (simp add: withColor_def)

lemma writeColoredString_rel:
  assumes "\<And>b c s. R b c \<Longrightarrow> R (ap1 b s) (ap2 c s)" and "R b c"
  shows "R (writeColoredString ap1 opts b s col) (writeColoredString ap2 opts c s col)"
  unfolding writeColoredString_def using assms by (rule withColor_ap_rel [where R = R])

lemma writeColoredTime_rel:
  assumes "\<And>b c s. R b c \<Longrightarrow> R (ap1 b s) (ap2 c s)" and "R b c"
  shows "R (writeColoredTime ap1 lb opts b t f col) (writeColoredTime ap2 lb opts c t f col)"
  unfolding writeColoredTime_def using assms by (rule withColor_ap_rel [where R = R])

lemma writeColoredValue_rel:
  assumes ap: "\<And>b c s. R b c \<Longrightarrow> R (ap1 b s) (ap2 c s)" and "R b c"
  shows "R (writeColoredValue ap1 lb opts b v style) (writeColoredValue ap2 lb opts c v style)"
proof -
  have wc: "\<And>s. R (withColor ap1 opts b style (\<lambda>w. ap1 w s)) (withColor ap2 opts c style (\<lambda>w. ap2 w s))"
    using assms by (rule withColor_ap_rel [where R = R])
  show ?thesis
  proof (cases v)
    case (VAny a)
    then show ?thesis
    proof (cases a)
      case (AError msg fm)
      then show ?thesis
        using VAny wc by (cases fm) (simp_all add: writeColoredValue_def writeColoredString_def)
    qed (simp_all add: writeColoredValue_def writeColoredString_def wc)
  qed (simp_all add: writeColoredValue_def writeColoredString_def writeColoredInt_def
        writeColoredUint_def writeColoredBool_def writeColoredFloat_def writeColoredTime_def
        writeColoredDuration_def wc)
qed

lemma writeTimestamp_rel:
  assumes ap: "\<And>b c s. R b c \<Longrightarrow> R (ap1 b s) (ap2 c s)" and "R b c"
  shows "rel_prod (=) R (writeTimestamp ap1 lb opts e b tt) (writeTimestamp ap2 lb opts e c tt)"
proof -
  have t: "\<And>t. R (ap1 (writeColoredTime ap1 lb opts b t (TimeFormat opts) (Timestamp (Theme opts))) '' '')
               (ap2 (writeColoredTime ap2 lb opts c t (TimeFormat opts) (Timestamp (Theme opts))) '' '')"
    using assms by (intro ap writeColoredTime_rel [where R = R])
  have v: "\<And>v. R (ap1 (writeColoredValue ap1 lb opts b v (Timestamp (Theme opts))) '' '')
               (ap2 (writeColoredValue ap2 lb opts c v (Timestamp (Theme opts))) '' '')"
    using assms by (intro ap writeColoredValue_rel [where R = R])
  show ?thesis
    using assms(2) t v
    by (simp add: writeTimestamp_def split: option.split prod.split)
qed

lemma writeLevel_rel:
  assumes ap: "\<And>b c s. R b c \<Longrightarrow> R (ap1 b s) (ap2 c s)" and "R b c"
  shows "rel_prod (=) R (writeLevel ap1 lb opts e b l) (writeLevel ap2 lb opts e c l)"
proof -
  have s: "\<And>s st. R (ap1 (writeColoredString ap1 opts b s st) '' '')
               (ap2 (writeColoredString ap2 opts c s st) '' '')"
    using assms by (intro ap writeColoredString_rel [where R = R])
  have v: "\<And>v st. R (ap1 (writeColoredValue ap1 lb opts b v st) '' '')
               (ap2 (writeColoredValue ap2 lb opts c v st) '' '')"
    using assms by (intro ap writeColoredValue_rel [where R = R])
  show ?thesis
    using assms(2) s v
    by (simp add: writeLevel_def split: option.split prod.split)
qed

lemma writeSource_rel:
  assumes ap: "\<And>b c s. R b c \<Longrightarrow> R (ap1 b s) (ap2 c s)" and "R b c"
  shows "rel_prod (=) R (writeSource ap1 lb opts e b pc d) (writeSource ap2 lb opts e c pc d)"
proof -
  have v: "\<And>v st. R (ap1 (writeColoredValue ap1 lb opts b v st) '' '')
               (ap2 (writeColoredValue ap2 lb opts c v st) '' '')"
    using assms by (intro ap writeColoredValue_rel [where R = R])
  have w: "\<And>f l. R (withColor ap1 opts b (Source (Theme opts)) (\<lambda>b. ap1 (ap1 (ap1 (ap1 b f) '':'') l) '' ''))
                    (withColor ap2 opts c (Source (Theme opts)) (\<lambda>b. ap2 (ap2 (ap2 (ap2 b f) '':'') l) '' ''))"
    using assms by (simp add: withColor_def)
  show ?thesis
    using assms(2) v w
    by (simp add: writeSource_def Let_def split: option.split prod.split sum.split)
qed

lemma writeMessage_rel:
  assumes ap: "\<And>b c s. R b c \<Longrightarrow> R (ap1 b s) (ap2 c s)" and "R b c"
  shows "rel_prod (=) R (writeMessage ap1 lb opts e b l m) (writeMessage ap2 lb opts e c l m)"
proof -
  have s: "\<And>s st. R (writeColoredString ap1 opts b s st) (writeColoredString ap2 opts c s st)"
    using assms by (rule writeColoredString_rel [where R = R])
  have v: "\<And>v st. R (writeColoredValue ap1 lb opts b v st) (writeColoredValue ap2 lb opts c v st)"
    using assms by (rule writeColoredValue_rel [where R = R])
  show ?thesis
    using assms(2) s v
    by (simp add: writeMessage_def Let_def split: option.split prod.split)
qed

lemma writeHeaders_rel:
  assumes ap: "\<And>b c s. R b c \<Longrightarrow> R (ap1 b s) (ap2 c s)" and "R b c"
  shows "rel_prod (=) R (writeHeaders ap1 lb opts e b hs) (writeHeaders ap2 lb opts e c hs)"
  using assms(2)
proof (induction hs arbitrary: e b c)
  case Nil
  then show ?case by simp
next
  case (Cons a hs)
  have v: "\<And>v st. R (ap1 (writeColoredValue ap1 lb opts b v st) '' '')
               (ap2 (writeColoredValue ap2 lb opts c v st) '' '')"
    using Cons.prems ap by (intro ap writeColoredValue_rel [where R = R])
  show ?case
    using Cons.prems v
    by (simp add: Let_def Cons.IH split: option.split prod.split)
qed

lemma writeAttr_leaf_rel:
  assumes ap: "\<And>b c s. R b c \<Longrightarrow> R (ap1 b s) (ap2 c s)" and "R b c"
  shows "R (writeAttr_leaf ap1 lb opts b a grp) (writeAttr_leaf ap2 lb opts c a grp)"
proof -
  have k: "R (withColor ap1 opts (ap1 b '' '') (AttrKey (Theme opts))
               (\<lambda>buf. ap1 (ap1 (if grp \<noteq> [] then ap1 (ap1 buf grp) ''.'' else buf) (Key a)) ''=''))
             (withColor ap2 opts (ap2 c '' '') (AttrKey (Theme opts))
               (\<lambda>buf. ap2 (ap2 (if grp \<noteq> [] then ap2 (ap2 buf grp) ''.'' else buf) (Key a)) ''=''))"
    using assms by (simp add: withColor_def)
  show ?thesis
    unfolding writeAttr_leaf_def Let_def
    using ap k by (rule writeColoredValue_rel [where R = R])
qed

lemma for_attrs_rel:
  assumes body: "\<And>e b c a. R b c \<Longrightarrow> a \<in> set as \<Longrightarrow> rel_option (rel_prod (=) R) (body1 e b a) (body2 e c a)"
    and "R b c"
  shows "rel_option (rel_prod (=) R) (for_attrs body1 e b as) (for_attrs body2 e c as)"
  using assms
proof (induction as arbitrary: e b c)
  case Nil
  then show ?case by simp
next
  case (Cons a as)
  have "rel_option (rel_prod (=) R) (body1 e b a) (body2 e c a)"
    using Cons.prems by simp
  then show ?case
  proof (cases rule: option.rel_cases)
    case None
    then show ?thesis by simp
  next
    case (Some x y)
    obtain e1 b1 where x: "x = (e1, b1)" by (cases x)
    obtain e2 c1 where y: "y = (e2, c1)" by (cases y)
    from Some x y have "e1 = e2" "R b1 c1" by auto
    then show ?thesis
      using Some x y Cons.IH [of b1 c1 e2] Cons.prems(1) by simp
  qed
qed

lemma writeAttr_rel:
  assumes ap: "\<And>b c s. R b c \<Longrightarrow> R (ap1 b s) (ap2 c s)" and "R b c"
  shows "rel_option (rel_prod (=) R) (writeAttr n ap1 lb opts e b a grp) (writeAttr n ap2 lb opts e c a grp)"
  using assms(2)
proof (induction n arbitrary: e b c a grp)
  case 0
  then show ?case by simp
next
  case (Suc n)
  obtain e' a' where r: "writeAttr_resolve lb opts e a = (e', a')"
    by (cases "writeAttr_resolve lb opts e a")
  show ?case
  proof (cases "a' = zero_Attr")
    case True
    then show ?thesis using r Suc.prems by simp
  next
    case False
    show ?thesis
    proof (cases "Value a'")
      case (VGroup members)
      let ?e = "if ReplaceAttr opts \<noteq> None then e'\<lparr>enc_groups := enc_groups e' @ [Key a']\<rparr> else e'"
      let ?sg = "if grp \<noteq> [] then grp @ ''.'' @ Key a' else Key a'"
      have "rel_option (rel_prod (=) R)
              (for_attrs (\<lambda>e buf attr. writeAttr n ap1 lb opts e buf attr ?sg) ?e b members)
              (for_attrs (\<lambda>e buf attr. writeAttr n ap2 lb opts e buf attr ?sg) ?e c members)"
        by (rule for_attrs_rel [where R = R]) (use Suc in auto)
      then show ?thesis
        using r False VGroup
        by (cases rule: option.rel_cases) (auto simp: Let_def)
    qed (use r False Suc.prems ap in \<open>simp_all add: writeAttr_leaf_rel [where R = R]\<close>)
  qed
qed






subsection \<open>The per-event attributes\<close>




lemma set_bufs_twice [simp]: "set_bufs m t (set_bufs m' t' e) = set_bufs m t e"
  by (simp add: set_bufs_def)

lemma set_bufs_sel [simp]: "middleBuf (set_bufs m t e) = m" "trailerBuf (set_bufs m t e) = t"
  by (simp_all add: set_bufs_def)


subsection \<open>What the built-in fields do to the encoder\<close>

lemma replaceBuiltin_enc: "\<exists>c. fst (replaceBuiltin lb f e a) = e\<lparr>hookCalls := c\<rparr>"
  by (auto simp: replaceBuiltin_def callReplaceAttr_def Let_def)

lemma enc_self: "\<exists>c. e = e\<lparr>hookCalls := c\<rparr>"
  by (rule exI [of _ "hookCalls e"]) simp

lemma writeTimestamp_enc: "\<exists>c. fst (writeTimestamp ap lb opts e b tt) = e\<lparr>hookCalls := c\<rparr>"
proof (cases "ReplaceAttr opts")
  case None
  then show ?thesis by (simp add: writeTimestamp_def enc_self)
next
  case (Some f)
  obtain e' r where r: "replaceBuiltin lb f e (Attr TimeKey (VTime tt)) = (e', r)"
    by (cases "replaceBuiltin lb f e (Attr TimeKey (VTime tt))")
  then obtain c where "e' = e\<lparr>hookCalls := c\<rparr>"
    using replaceBuiltin_enc [of lb f e "Attr TimeKey (VTime tt)"] by auto
  then show ?thesis
    using Some r by (auto simp: writeTimestamp_def enc_self split: option.split)
qed

lemma writeLevel_enc: "\<exists>c. fst (writeLevel ap lb opts e b l) = e\<lparr>hookCalls := c\<rparr>"
proof (cases "ReplaceAttr opts")
  case None
  then show ?thesis
    by (simp add: writeLevel_def writeLevel_hook_def enc_self split: prod.split)
next
  case (Some f)
  obtain e' r where r: "replaceBuiltin lb f e (Attr LevelKey (VAny (ALevel l))) = (e', r)"
    by (cases "replaceBuiltin lb f e (Attr LevelKey (VAny (ALevel l)))")
  then obtain c where "e' = e\<lparr>hookCalls := c\<rparr>"
    using replaceBuiltin_enc [of lb f e "Attr LevelKey (VAny (ALevel l))"] by auto
  then show ?thesis
    using Some r by (auto simp: writeLevel_def writeLevel_hook_def split: option.split prod.split)
qed

lemma writeSource_enc: "\<exists>c. fst (writeSource ap lb opts e b pc d) = e\<lparr>hookCalls := c\<rparr>"
proof (cases "ReplaceAttr opts")
  case None
  then show ?thesis
    by (simp add: writeSource_def writeSource_hook_def enc_self Let_def)
next
  case (Some f)
  let ?src = "if pc > 0 then CallersFrame lb pc else \<lparr>Function = [], File = [], Line = 0\<rparr>"
  obtain e' r where r: "replaceBuiltin lb f e (Attr SourceKey (VAny (ASource (Some ?src)))) = (e', r)"
    by (cases "replaceBuiltin lb f e (Attr SourceKey (VAny (ASource (Some ?src))))")
  then obtain c where "e' = e\<lparr>hookCalls := c\<rparr>"
    using replaceBuiltin_enc [of lb f e "Attr SourceKey (VAny (ASource (Some ?src)))"] by auto
  then show ?thesis
    using Some r
    by (auto simp: writeSource_def writeSource_hook_def Let_def split: option.split)
qed

lemma writeMessage_enc: "\<exists>c. fst (writeMessage ap lb opts e b l m) = e\<lparr>hookCalls := c\<rparr>"
proof (cases "ReplaceAttr opts")
  case None
  then show ?thesis by (simp add: writeMessage_def enc_self Let_def)
next
  case (Some f)
  obtain e' r where r: "replaceBuiltin lb f e (Attr MessageKey (VString m)) = (e', r)"
    by (cases "replaceBuiltin lb f e (Attr MessageKey (VString m))")
  then obtain c where "e' = e\<lparr>hookCalls := c\<rparr>"
    using replaceBuiltin_enc [of lb f e "Attr MessageKey (VString m)"] by auto
  then show ?thesis
    using Some r by (auto simp: writeMessage_def Let_def split: option.split)
qed

lemma writeHeaders_enc: "\<exists>c. fst (writeHeaders ap lb opts e b hs) = e\<lparr>hookCalls := c\<rparr>"
proof (induction hs arbitrary: e b)
  case Nil
  then show ?case by (simp add: enc_self)
next
  case (Cons a hs)
  have step: "\<exists>c. fst (writeHeaders ap lb opts (e\<lparr>hookCalls := c0\<rparr>) b' hs) = e\<lparr>hookCalls := c\<rparr>" for c0 b'
    using Cons.IH [of "e\<lparr>hookCalls := c0\<rparr>" b'] by auto
  show ?case
  proof (cases "ReplaceAttr opts")
    case None
    then show ?thesis using Cons.IH by (simp add: Let_def)
  next
    case (Some f)
    then show ?thesis
      using Cons.IH step by (simp add: Let_def callReplaceAttr_def)
  qed
qed

lemma via_headerBuf_keeps:
  assumes "\<And>e b. \<exists>c. fst (f e b) = e\<lparr>hookCalls := c\<rparr>"
  shows "middleBuf (via_headerBuf f e) = middleBuf e \<and> trailerBuf (via_headerBuf f e) = trailerBuf e
         \<and> enc_groups (via_headerBuf f e) = enc_groups e \<and> enc_headers (via_headerBuf f e) = enc_headers e"
proof -
  obtain c where "fst (f e (headerBuf e)) = e\<lparr>hookCalls := c\<rparr>"
    using assms by blast
  then show ?thesis
    by (cases "f e (headerBuf e)") (auto simp: via_headerBuf_def)
qed

lemma via_middleBuf_keeps:
  assumes "\<And>e b. \<exists>c. fst (f e b) = e\<lparr>hookCalls := c\<rparr>"
  shows "headerBuf (via_middleBuf f e) = headerBuf e \<and> trailerBuf (via_middleBuf f e) = trailerBuf e
         \<and> enc_groups (via_middleBuf f e) = enc_groups e \<and> enc_headers (via_middleBuf f e) = enc_headers e
         \<and> middleBuf (via_middleBuf f e) = snd (f e (middleBuf e))"
proof -
  obtain c where "fst (f e (middleBuf e)) = e\<lparr>hookCalls := c\<rparr>"
    using assms by blast
  then show ?thesis
    by (cases "f e (middleBuf e)") (auto simp: via_middleBuf_def)
qed

lemma writeMessage_prefix:
  "snd (writeMessage ap_list lb opts e (pre @ b) l m) = pre @ snd (writeMessage ap_list lb opts e b l m)"
proof -
  have "rel_prod (=) (\<lambda>x y. x = pre @ y)
          (writeMessage ap_list lb opts e (pre @ b) l m) (writeMessage ap_list lb opts e b l m)"
    by (rule writeMessage_rel [where R = "\<lambda>x y. x = pre @ y"]) (simp_all add: ap_list_def)
  then show ?thesis
    by (auto simp: rel_prod_sel)
qed

lemma Handle_begin_keeps:
  assumes "Handle_begin lb h rec st enc = (enc1, headerLen)"
  shows "trailerBuf enc1 = trailerBuf enc \<and> enc_groups enc1 = enc_groups enc
         \<and> enc_headers enc1 = enc_headers enc
         \<and> (\<exists>m. middleBuf enc1 = middleBuf enc @ m @ sread (st_bytes st) (h_context h))"
proof -
  define e1 where "e1 = via_headerBuf (\<lambda>e b. writeTimestamp ap_list lb (h_opts h) e b (rec_Time rec)) enc"
  define e2 where "e2 = via_headerBuf (\<lambda>e b. writeLevel ap_list lb (h_opts h) e b (rec_Level rec)) e1"
  define e3 where "e3 = (if AddSource (h_opts h)
             then via_headerBuf (\<lambda>e b. writeSource ap_list lb (h_opts h) e b (rec_PC rec) (cwd lb)) e2
             else e2)"
  define e4 where "e4 = via_middleBuf (\<lambda>e b. writeMessage ap_list lb (h_opts h) e b (rec_Level rec) (rec_Message rec)) e3"
  have k1: "middleBuf e1 = middleBuf enc \<and> trailerBuf e1 = trailerBuf enc
         \<and> enc_groups e1 = enc_groups enc \<and> enc_headers e1 = enc_headers enc"
    unfolding e1_def by (rule via_headerBuf_keeps) (rule writeTimestamp_enc)
  have k2: "middleBuf e2 = middleBuf e1 \<and> trailerBuf e2 = trailerBuf e1
         \<and> enc_groups e2 = enc_groups e1 \<and> enc_headers e2 = enc_headers e1"
    unfolding e2_def by (rule via_headerBuf_keeps) (rule writeLevel_enc)
  have k3: "middleBuf e3 = middleBuf e2 \<and> trailerBuf e3 = trailerBuf e2
         \<and> enc_groups e3 = enc_groups e2 \<and> enc_headers e3 = enc_headers e2"
  proof (cases "AddSource (h_opts h)")
    case True
    then have "e3 = via_headerBuf (\<lambda>e b. writeSource ap_list lb (h_opts h) e b (rec_PC rec) (cwd lb)) e2"
      by (simp add: e3_def)
    then show ?thesis
      using via_headerBuf_keeps [of "\<lambda>e b. writeSource ap_list lb (h_opts h) e b (rec_PC rec) (cwd lb)" e2, OF writeSource_enc]
      by simp
  next
    case False
    then show ?thesis by (simp add: e3_def)
  qed
  have k4: "headerBuf e4 = headerBuf e3 \<and> trailerBuf e4 = trailerBuf e3
         \<and> enc_groups e4 = enc_groups e3 \<and> enc_headers e4 = enc_headers e3
         \<and> middleBuf e4 = snd (writeMessage ap_list lb (h_opts h) e3 (middleBuf e3) (rec_Level rec) (rec_Message rec))"
    unfolding e4_def by (rule via_middleBuf_keeps) (rule writeMessage_enc)
  have "middleBuf e3 = middleBuf enc"
    using k1 k2 k3 by simp
  then have m: "middleBuf e4 = middleBuf enc @ snd (writeMessage ap_list lb (h_opts h) e3 [] (rec_Level rec) (rec_Message rec))"
    using k4 writeMessage_prefix [of lb "h_opts h" e3 "middleBuf enc" "[]"] by simp
  have enc1: "enc1 = e4\<lparr>middleBuf := buffer_copy (middleBuf e4) (sread (st_bytes st) (h_context h))\<rparr>"
    using assms unfolding e4_def e3_def e2_def e1_def Handle_begin_def Let_def by auto
  have "trailerBuf e4 = trailerBuf enc" "enc_groups e4 = enc_groups enc" "enc_headers e4 = enc_headers enc"
    using k1 k2 k3 k4 by simp_all
  then show ?thesis
    using enc1 m by (simp add: buffer_copy_def)
qed

subsection \<open>Enough fuel without a hook\<close>

lemma resolve_loop_size: "resolve_loop k v = Some r \<Longrightarrow> size r \<le> size v"
proof (induction k arbitrary: v)
  case 0
  then show ?case by simp
next
  case (Suc k)
  then show ?case
    by (cases v) (auto dest!: Suc.IH)
qed

lemma Resolve_group_size:
  assumes "Resolve lb v = VGroup members"
  shows "size (VGroup members) \<le> size v"
  using assms resolve_loop_size [of maxLogValues v]
  by (auto simp: Resolve_def split: option.splits)

lemma for_attrs_returns:
  assumes "\<And>a e b. a \<in> set as \<Longrightarrow> body e b a \<noteq> None"
  shows "for_attrs body e b as \<noteq> None"
  using assms
proof (induction as arbitrary: e b)
  case Nil
  then show ?case by simp
next
  case (Cons a as)
  have "body e b a \<noteq> None"
    using Cons.prems by simp
  then obtain e1 b1 where "body e b a = Some (e1, b1)"
    by (cases "body e b a") auto
  then show ?case
    using Cons.IH [of e1 b1] Cons.prems by simp
qed

lemma member_size: "m \<in> set members \<Longrightarrow> size m < size (VGroup members)"
  by (induction members) auto

lemma writeAttr_enough_fuel:
  assumes "ReplaceAttr opts = None"
  shows "size a < n \<Longrightarrow> writeAttr n ap lb opts e b a grp \<noteq> None"
proof (induction n arbitrary: a e b grp)
  case 0
  then show ?case by simp
next
  case (Suc n)
  have r: "writeAttr_resolve lb opts e a = (e, Attr (Key a) (Resolve lb (Value a)))"
    using assms by (simp add: writeAttr_resolve_def)
  show ?case
  proof (cases "Resolve lb (Value a)")
    case (VGroup members)
    have "size (VGroup members) \<le> size (Value a)"
      using Resolve_group_size [OF VGroup] .
    moreover have "size (Value a) < size a"
      by (cases a) simp
    ultimately have "\<And>m. m \<in> set members \<Longrightarrow> size m < n"
      using member_size Suc.prems by fastforce
    then have "for_attrs (\<lambda>e buf attr. writeAttr n ap lb opts e buf attr
                 (if grp \<noteq> [] then grp @ ''.'' @ Key a else Key a)) e b members \<noteq> None"
      by (intro for_attrs_returns Suc.IH)
    then show ?thesis
      using r VGroup assms by (auto simp: Let_def zero_Attr_def zero_Value_def)
  qed (use r in \<open>auto simp: Let_def\<close>)
qed

subsection \<open>Slices and stores\<close>


lemma sread_append: "slice_ok st sl \<Longrightarrow> sread (st @ xs) sl = sread st sl"
  by (auto simp: slice_ok_def sread_def nth_append)

lemma length_sread: "slice_ok st sl \<Longrightarrow> length (sread st sl) = s_len sl"
  by (auto simp: slice_ok_def sread_def)

lemma IndexFunc_bound: "IndexFunc xs f < int (length xs)"
  by (induction xs) (auto simp: Let_def)

lemma IndexFunc_mem: "IndexFunc xs (\<lambda>s. s = k) \<ge> 0 \<longleftrightarrow> k \<in> set xs"
  by (induction xs) (auto simp: Let_def)

text \<open>What one \<open>append\<close> does to the store and to the slice.\<close>

lemma go_append_props:
  assumes "go_append z g st sl xs = (st', sl')" and "slice_ok st sl"
  shows "slice_ok st' sl'"
    and "sread st' sl' = sread st sl @ xs"
    and "s_len sl' = s_len sl + length xs"
    and "length st \<le> length st'"
    and "\<And>p. p < length st \<Longrightarrow> p \<noteq> s_ptr sl \<Longrightarrow> st' ! p = st ! p"
    and "\<And>p. p < length st \<Longrightarrow> length (st' ! p) = length (st ! p)"
    and "\<And>p. p < length st \<Longrightarrow> take (s_len sl) (st' ! p) = take (s_len sl) (st ! p) \<or> p \<noteq> s_ptr sl"
    and "s_ptr sl' = s_ptr sl \<or> s_ptr sl' = length st"
proof -
  let ?n = "s_len sl + length xs"
  have len: "length (sread st sl) = s_len sl"
    using assms(2) by (rule length_sread)
  show "slice_ok st' sl'"
    using assms len
    by (auto simp: go_append_def Let_def slice_ok_def nth_append split: if_splits)
  show "sread st' sl' = sread st sl @ xs"
    using assms
    by (auto simp: go_append_def Let_def slice_ok_def sread_def nth_append split: if_splits)
  show "s_len sl' = s_len sl + length xs"
    using assms by (auto simp: go_append_def Let_def split: if_splits)
  show "length st \<le> length st'"
    using assms by (auto simp: go_append_def Let_def split: if_splits)
  show "\<And>p. p < length st \<Longrightarrow> p \<noteq> s_ptr sl \<Longrightarrow> st' ! p = st ! p"
    using assms by (auto simp: go_append_def Let_def nth_append split: if_splits)
  show "\<And>p. p < length st \<Longrightarrow> length (st' ! p) = length (st ! p)"
    using assms
    by (auto simp: go_append_def Let_def nth_append nth_list_update slice_ok_def split: if_splits)
  show "\<And>p. p < length st \<Longrightarrow> take (s_len sl) (st' ! p) = take (s_len sl) (st ! p) \<or> p \<noteq> s_ptr sl"
    using assms
    by (auto simp: go_append_def Let_def nth_append nth_list_update slice_ok_def split: if_splits)
  show "s_ptr sl' = s_ptr sl \<or> s_ptr sl' = length st"
    using assms by (auto simp: go_append_def Let_def split: if_splits)
qed

text \<open>Appending to a slice without spare capacity leaves every array of the store as it is.\<close>

lemma go_append_clipped:
  assumes "go_append z g st sl xs = (st', sl')" and "s_cap sl = s_len sl"
  shows "\<exists>new. st' = st @ new"
  using assms by (auto simp: go_append_def Let_def split: if_splits)

lemma swrite_props:
  assumes "swrite st sl i v = Inr st'" and "slice_ok st sl"
  shows "sread st' sl = (sread st sl)[i := v]"
    and "length st' = length st"
    and "\<And>p. p \<noteq> s_ptr sl \<Longrightarrow> st' ! p = st ! p"
    and "\<And>p. length (st' ! p) = length (st ! p)"
    and "i < s_len sl"
proof -
  show "sread st' sl = (sread st sl)[i := v]"
    using assms
    by (auto simp: swrite_def slice_ok_def sread_def take_update_swap split: if_splits)
  show "length st' = length st"
    using assms by (auto simp: swrite_def split: if_splits)
  show "\<And>p. p \<noteq> s_ptr sl \<Longrightarrow> st' ! p = st ! p"
    using assms by (auto simp: swrite_def split: if_splits)
  show "length (st' ! p) = length (st ! p)" for p
    using assms
    by (cases "p = s_ptr sl") (auto simp: swrite_def slice_ok_def split: if_splits)
  show "i < s_len sl"
    using assms by (auto simp: swrite_def split: if_splits)
qed

lemma swrite_returns: "i < s_len sl \<Longrightarrow> \<exists>st'. swrite st sl i v = Inr st'"
  by (simp add: swrite_def)

subsection \<open>The header slots of one render\<close>

lemma for_attrs_enc:
  assumes "\<And>e b a e' b'. a \<in> set as \<Longrightarrow> body e b a = Some (e', b') \<Longrightarrow> \<exists>c. e' = e\<lparr>hookCalls := c\<rparr>"
    and "for_attrs body e b as = Some (e', b')"
  shows "\<exists>c. e' = e\<lparr>hookCalls := c\<rparr>"
  using assms
proof (induction as arbitrary: e b)
  case Nil
  then show ?case by (simp add: enc_self)
next
  case (Cons a as)
  from Cons.prems(2) obtain e1 b1 where
    1: "body e b a = Some (e1, b1)" and 2: "for_attrs body e1 b1 as = Some (e', b')"
    by (auto split: option.splits)
  obtain c1 where "e1 = e\<lparr>hookCalls := c1\<rparr>"
    using Cons.prems(1) [OF _ 1] by auto
  moreover have "\<exists>c. e' = e1\<lparr>hookCalls := c\<rparr>"
  proof (rule Cons.IH [OF _ 2])
    show "\<exists>c. e'' = e0\<lparr>hookCalls := c\<rparr>"
      if "a' \<in> set as" "body e0 b0 a' = Some (e'', b'')" for a' e0 b0 e'' b''
      using Cons.prems(1) [of a' e0 b0 e'' b''] that by simp
  qed
  ultimately show ?case by auto
qed

lemma writeAttr_resolve_enc: "\<exists>c. fst (writeAttr_resolve lb opts e a) = e\<lparr>hookCalls := c\<rparr>"
  by (auto simp: writeAttr_resolve_def callReplaceAttr_def Let_def enc_self split: option.split)

lemma writeAttr_enc:
  "writeAttr n ap lb opts e b a grp = Some (e', b') \<Longrightarrow> \<exists>c. e' = e\<lparr>hookCalls := c\<rparr>"
proof (induction n arbitrary: e b a grp e' b')
  case 0
  then show ?case by simp
next
  case (Suc n)
  obtain e1 a1 where r: "writeAttr_resolve lb opts e a = (e1, a1)"
    by (cases "writeAttr_resolve lb opts e a")
  obtain c1 where e1: "e1 = e\<lparr>hookCalls := c1\<rparr>"
    using writeAttr_resolve_enc [of lb opts e a] r by auto
  show ?case
  proof (cases "a1 = zero_Attr")
    case True
    then show ?thesis using Suc.prems r e1 by auto
  next
    case False
    show ?thesis
    proof (cases "Value a1")
      case (VGroup members)
      let ?sg = "if grp \<noteq> [] then grp @ ''.'' @ Key a1 else Key a1"
      let ?e2 = "if ReplaceAttr opts \<noteq> None then e1\<lparr>enc_groups := enc_groups e1 @ [Key a1]\<rparr> else e1"
      from Suc.prems r False VGroup obtain e3 where
        f: "for_attrs (\<lambda>e buf attr. writeAttr n ap lb opts e buf attr ?sg) ?e2 b members = Some (e3, b')"
        and e': "e' = (if ReplaceAttr opts \<noteq> None then e3\<lparr>enc_groups := butlast (enc_groups e3)\<rparr> else e3)"
        by (auto simp: Let_def split: option.splits)
      obtain c3 where "e3 = ?e2\<lparr>hookCalls := c3\<rparr>"
        using for_attrs_enc [OF _ f] Suc.IH by blast
      then show ?thesis
        using e' e1 by (cases "ReplaceAttr opts") auto
    qed (use Suc.prems r False e1 in auto)
  qed
qed

lemma slice_ok_same_lengths:
  assumes "slice_ok st sl" and "length st \<le> length st'"
    and "\<And>p. p < length st \<Longrightarrow> length (st' ! p) = length (st ! p)"
  shows "slice_ok st' sl"
  using assms by (auto simp: slice_ok_def)

lemma sread_same_array:
  assumes "s_len sl = 0 \<or> st' ! s_ptr sl = st ! s_ptr sl"
  shows "sread st' sl = sread st sl"
  using assms by (auto simp: sread_def)

lemma Handle_attr_headers:
  assumes step: "Handle_attr fuel lb h (enc, as, hs, lh) a = Inr (enc', as', hs', lh')"
    and h_ok: "slice_ok as0 (h_headers h)"
    and e_ok: "slice_ok as0 (enc_headers enc)" "s_len (enc_headers enc) = 0"
    and inv: "local_headers_inv h (enc_headers enc) as0 (as, hs, lh)"
  shows "local_headers_inv h (enc_headers enc) as0 (as', hs', lh')
         \<and> sread as' hs' = override_slots (Headers (h_opts h)) (sread as hs) [a]
         \<and> enc_headers enc' = enc_headers enc"
proof (cases "IndexFunc (Headers (h_opts h)) (\<lambda>s. s = Key a) \<ge> 0")
  case False
  from step False obtain e1 mb where
    w: "writeAttr fuel ap_list lb (h_opts h) enc (middleBuf enc) a (h_groupPrefix h) = Some (e1, mb)"
    by (auto simp: Handle_attr_def Let_def split: option.splits)
  obtain c where "e1 = enc\<lparr>hookCalls := c\<rparr>"
    using writeAttr_enc [OF w] by auto
  then show ?thesis
    using step False w inv
    by (auto simp: Handle_attr_def Let_def split: if_splits)
next
  case True
  let ?idx = "nat (IndexFunc (Headers (h_opts h)) (\<lambda>s. s = Key a))"
  let ?e0 = "enc_headers enc"
  show ?thesis
  proof (cases lh)
    case True
    from step \<open>IndexFunc (Headers (h_opts h)) (\<lambda>s. s = Key a) \<ge> 0\<close> True have
      sw: "swrite as hs ?idx a = Inr as'" and eq: "enc' = enc" "hs' = hs" "lh' = True"
      by (auto simp: Handle_attr_def Let_def split: sum.splits)
    have ok: "slice_ok as hs" "s_len hs = s_len (h_headers h)"
      "s_ptr hs = s_ptr ?e0 \<or> length as0 \<le> s_ptr hs"
      using inv True by (auto simp: local_headers_inv_def)
    note p = swrite_props [OF sw ok(1)]
    have "slice_ok as' hs"
      using ok(1) p(2) p(4) by (auto simp: slice_ok_def)
    moreover have "\<forall>p < length as0. p \<noteq> s_ptr ?e0 \<longrightarrow> as' ! p = as0 ! p"
      using inv ok(3) p(3) by (auto simp: local_headers_inv_def)
    moreover have "\<forall>p < length as0. length (as' ! p) = length (as0 ! p)"
      using inv p(4) by (auto simp: local_headers_inv_def)
    moreover have "length as0 \<le> length as'"
      using inv p(2) by (auto simp: local_headers_inv_def)
    ultimately show ?thesis
      using eq ok p(1) \<open>IndexFunc (Headers (h_opts h)) (\<lambda>s. s = Key a) \<ge> 0\<close>
      by (simp add: local_headers_inv_def Let_def)
  next
    case False
    then have start: "as = as0" "hs = h_headers h"
      using inv by (auto simp: local_headers_inv_def)
    obtain as1 hs1 where
      ga: "go_append zero_Attr (growslice lb) as0 ?e0 (sread as0 (h_headers h)) = (as1, hs1)"
      by (cases "go_append zero_Attr (growslice lb) as0 ?e0 (sread as0 (h_headers h))")
    from step \<open>IndexFunc (Headers (h_opts h)) (\<lambda>s. s = Key a) \<ge> 0\<close> False start ga have
      sw: "swrite as1 hs1 ?idx a = Inr as'" and eq: "enc' = enc" "hs' = hs1" "lh' = True"
      by (auto simp: Handle_attr_def Let_def split: sum.splits)
    note g = go_append_props [OF ga e_ok(1)]
    note p = swrite_props [OF sw g(1)]
    have r0: "sread as0 ?e0 = []"
      using e_ok(2) by (simp add: sread_def)
    have rd: "sread as' hs1 = (sread as0 (h_headers h))[?idx := a]"
      using p(1) g(2) r0 by simp
    have len: "s_len hs1 = s_len (h_headers h)"
      using g(3) e_ok(2) length_sread [OF h_ok] by simp
    have "slice_ok as' hs1"
      using g(1) p(2) p(4) by (auto simp: slice_ok_def)
    moreover have "\<forall>p < length as0. p \<noteq> s_ptr ?e0 \<longrightarrow> as' ! p = as0 ! p"
      using g(5) g(8) p(3) by auto
    moreover have "\<forall>p < length as0. length (as' ! p) = length (as0 ! p)"
      using g(6) p(4) by auto
    moreover have "length as0 \<le> length as'"
      using g(4) p(2) by simp
    moreover have "s_ptr hs1 = s_ptr ?e0 \<or> length as0 \<le> s_ptr hs1"
      using g(8) by auto
    ultimately show ?thesis
      using eq rd len start \<open>IndexFunc (Headers (h_opts h)) (\<lambda>s. s = Key a) \<ge> 0\<close>
      by (simp add: local_headers_inv_def Let_def)
  qed
qed

lemma Handle_attrs_headers:
  assumes run: "Handle_attrs fuel lb h (enc, as, hs, lh) attrs = Inr (enc', as', hs', lh')"
    and h_ok: "slice_ok as0 (h_headers h)"
    and e_ok: "slice_ok as0 (enc_headers enc)" "s_len (enc_headers enc) = 0"
    and inv: "local_headers_inv h (enc_headers enc) as0 (as, hs, lh)"
  shows "local_headers_inv h (enc_headers enc) as0 (as', hs', lh')
         \<and> sread as' hs' = override_slots (Headers (h_opts h)) (sread as hs) attrs
         \<and> enc_headers enc' = enc_headers enc"
  using run e_ok inv
proof (induction attrs arbitrary: enc as hs lh)
  case Nil
  then show ?case by simp
next
  case (Cons a attrs)
  from Cons.prems(1) obtain enc1 as1 hs1 lh1 where
    step: "Handle_attr fuel lb h (enc, as, hs, lh) a = Inr (enc1, as1, hs1, lh1)"
    and rest: "Handle_attrs fuel lb h (enc1, as1, hs1, lh1) attrs = Inr (enc', as', hs', lh')"
    by (auto split: sum.splits)
  have s: "local_headers_inv h (enc_headers enc) as0 (as1, hs1, lh1)
         \<and> sread as1 hs1 = override_slots (Headers (h_opts h)) (sread as hs) [a]
         \<and> enc_headers enc1 = enc_headers enc"
    using Handle_attr_headers [OF step h_ok Cons.prems(2,3,4)] .
  have "local_headers_inv h (enc_headers enc1) as0 (as', hs', lh')
         \<and> sread as' hs' = override_slots (Headers (h_opts h)) (sread as1 hs1) attrs
         \<and> enc_headers enc' = enc_headers enc1"
    using Cons.IH [OF rest] s Cons.prems(2,3) by simp
  then show ?case
    using s by simp
qed

subsection \<open>Taking an encoder from the pool\<close>

lemma newEncoder_props:
  assumes "pool_ok st" and "newEncoder h st = (enc, st0)"
  shows "headerBuf enc = []" and "middleBuf enc = []" and "trailerBuf enc = []"
    and "s_len (enc_headers enc) = 0" and "slice_ok (st_attrs st0) (enc_headers enc)"
    and "st_bytes st0 = st_bytes st" and "st_sink st0 = st_sink st"
    and "\<exists>new. st_attrs st0 = st_attrs st @ new"
    and "enc_groups enc = (if ReplaceAttr (h_opts h) \<noteq> None
                           then sread (st_groups st) (h_groups h) else [])"
    and "st_pool st0 = tl (st_pool st)"
    and "s_ptr (enc_headers enc) \<ge> length (st_attrs st) \<or> (st_pool st \<noteq> [] \<and> enc_headers enc = enc_headers (hd (st_pool st)))"
    and "s_ptr (enc_headers enc) < length (st_attrs st0)"
    and "st_groups st0 = st_groups st"
  using assms
  by (auto simp: newEncoder_def encoderPool_Get_def encoderPool_New_def pool_ok_def encoder_ok_def
        slice_ok_def Let_def nth_append split: list.splits if_splits)



lemma local_headers_inv_start: "local_headers_inv h e0 as0 (as0, h_headers h, False)"
  by (simp add: local_headers_inv_def)


subsection \<open>The three sections of a line\<close>




subsection \<open>Derivation: the header slots\<close>

lemma store_extends_refl [simp]: "store_extends st st"
  by (simp add: store_extends_def)

lemma store_extends_append [simp]: "store_extends st (st @ new)"
  by (simp add: store_extends_def)

lemma store_extends_iff: "store_extends st st' \<longleftrightarrow> (\<exists>new. st' = st @ new)"
proof
  assume "store_extends st st'"
  then have "st' = st @ drop (length st) st'"
    by (metis store_extends_def append_take_drop_id)
  then show "\<exists>new. st' = st @ new" ..
next
  assume "\<exists>new. st' = st @ new"
  then show "store_extends st st'"
    by (auto simp: store_extends_def)
qed

lemma store_extends_trans: "store_extends a b \<Longrightarrow> store_extends b c \<Longrightarrow> store_extends a c"
  by (auto simp: store_extends_iff)

lemma store_extends_nth: "store_extends st st' \<Longrightarrow> p < length st \<Longrightarrow> st' ! p = st ! p"
  by (auto simp: store_extends_iff nth_append)

lemma store_extends_length: "store_extends st st' \<Longrightarrow> length st \<le> length st'"
  by (auto simp: store_extends_iff)

lemma store_extends_update:
  "store_extends st st' \<Longrightarrow> length st \<le> p \<Longrightarrow> store_extends st (st'[p := x])"
  by (simp add: store_extends_def)

lemma store_extends_slice_ok: "store_extends st st' \<Longrightarrow> slice_ok st sl \<Longrightarrow> slice_ok st' sl"
  using store_extends_nth [of st st' "s_ptr sl"] store_extends_length [of st st']
  by (auto simp: slice_ok_def)

lemma store_extends_sread: "store_extends st st' \<Longrightarrow> slice_ok st sl \<Longrightarrow> sread st' sl = sread st sl"
  using store_extends_nth [of st st' "s_ptr sl"]
  by (auto simp: slice_ok_def sread_def)

text \<open>What \<open>extractHeaders\<close> leaves in the caller's slice.\<close>

lemma extractHeaders_loop_attrs:
  "extractHeaders_loop h as hs ch attrs = Inr (hs', as', attrs')
   \<Longrightarrow> attrs' = map (\<lambda>a. if Key a \<in> set (Headers (h_opts h)) then zero_Attr else a) attrs"
proof (induction attrs arbitrary: as hs ch hs' as' attrs')
  case Nil
  then show ?case by simp
next
  case (Cons a attrs)
  show ?case
  proof (cases "IndexFunc (Headers (h_opts h)) (\<lambda>s. s = Key a) \<ge> 0")
    case True
    then have k: "Key a \<in> set (Headers (h_opts h))"
      by (simp add: IndexFunc_mem)
    from Cons.prems True obtain as1 hs1 rest where
      "extractHeaders_loop h as1 hs1 True attrs = Inr (hs', as', rest)" "attrs' = zero_Attr # rest"
      by (auto simp: Let_def split: sum.splits prod.splits if_splits)
    then show ?thesis
      using Cons.IH k by simp
  next
    case False
    then have k: "Key a \<notin> set (Headers (h_opts h))"
      by (simp add: IndexFunc_mem)
    from Cons.prems False obtain rest where
      "extractHeaders_loop h as hs ch attrs = Inr (hs', as', rest)" "attrs' = a # rest"
      by (auto simp: Let_def split: sum.splits prod.splits)
    then show ?thesis
      using Cons.IH k by simp
  qed
qed

text \<open>The slice of the first copy: a fresh array holding the handler's slots.\<close>

lemma first_copy_props:
  assumes "slice_ok as (h_headers h)"
    and "smake zero_Attr as (s_len (h_headers h)) = (as1, hs1)"
  shows "scopy as1 hs1 (h_headers h) = as @ [sread as (h_headers h)]"
    and "hs1 = \<lparr>s_ptr = length as, s_len = s_len (h_headers h), s_cap = s_len (h_headers h)\<rparr>"
  using assms
  by (auto simp: smake_def scopy_def slice_ok_def sread_def nth_append)

lemma extractHeaders_loop_slots:
  assumes "extractHeaders_loop h as hs ch attrs = Inr (hs', as', attrs')"
    and "slice_ok as0 (h_headers h)"
    and "(ch \<and> store_extends as0 as \<and> s_ptr hs = length as0 \<and> length as0 < length as
             \<and> s_len hs = s_len (h_headers h) \<and> s_cap hs = s_len hs
             \<and> length (as ! s_ptr hs) = s_len hs)
         \<or> (\<not> ch \<and> as = as0 \<and> hs = h_headers h)"
  shows "store_extends as0 as' \<and> slice_ok as' hs' \<and> s_len hs' = s_len (h_headers h)
         \<and> sread as' hs' = override_slots (Headers (h_opts h)) (sread as hs) attrs
         \<and> (hs' = h_headers h \<and> as' = as0 \<or> s_ptr hs' = length as0 \<and> length as0 < length as')"
  using assms
proof (induction attrs arbitrary: as hs ch hs' as' attrs')
  case Nil
  then show ?case
    using store_extends_slice_ok [of as0 as' "h_headers h"]
    by (auto simp: slice_ok_def split: if_splits)
next
  case (Cons a attrs)
  let ?idx = "nat (IndexFunc (Headers (h_opts h)) (\<lambda>s. s = Key a))"
  show ?case
  proof (cases "IndexFunc (Headers (h_opts h)) (\<lambda>s. s = Key a) \<ge> 0")
    case False
    from Cons.prems(1) False obtain rest where
      r: "extractHeaders_loop h as hs ch attrs = Inr (hs', as', rest)"
      by (auto simp: Let_def split: sum.splits prod.splits)
    show ?thesis
      using Cons.IH [OF r Cons.prems(2,3)] False by (simp add: Let_def)
  next
    case True
    define as1 where "as1 = (if ch then as else as0 @ [sread as0 (h_headers h)])"
    define hs1 where "hs1 = (if ch then hs
        else \<lparr>s_ptr = length as0, s_len = s_len (h_headers h), s_cap = s_len (h_headers h)\<rparr>)"
    have pre: "(if \<not> ch then (let (as, hs) = smake zero_Attr as (s_len (h_headers h))
                      in (scopy as hs (h_headers h), hs)) else (as, hs)) = (as1, hs1)"
    proof (cases ch)
      case True
      then show ?thesis by (simp add: as1_def hs1_def)
    next
      case False
      then have s: "as = as0" "hs = h_headers h"
        using Cons.prems(3) by auto
      obtain asm hsm where m: "smake zero_Attr as0 (s_len (h_headers h)) = (asm, hsm)"
        by (cases "smake zero_Attr as0 (s_len (h_headers h))")
      show ?thesis
        using False s m first_copy_props [OF Cons.prems(2) m]
        by (simp add: as1_def hs1_def)
    qed
    have st1: "store_extends as0 as1 \<and> s_ptr hs1 = length as0 \<and> length as0 < length as1
               \<and> s_len hs1 = s_len (h_headers h) \<and> s_cap hs1 = s_len hs1
               \<and> length (as1 ! s_ptr hs1) = s_len hs1"
      using Cons.prems(3) length_sread [OF Cons.prems(2)]
      by (cases ch) (auto simp: as1_def hs1_def)
    have rd1: "sread as1 hs1 = sread as hs"
      using Cons.prems(3) length_sread [OF Cons.prems(2)]
      by (cases ch) (auto simp: as1_def hs1_def sread_def)
    have ok1: "slice_ok as1 hs1"
      using st1 by (auto simp: slice_ok_def)
    from Cons.prems(1) True pre obtain as2 rest where
      sw: "swrite as1 hs1 ?idx a = Inr as2"
      and r: "extractHeaders_loop h as2 hs1 True attrs = Inr (hs', as', rest)"
      by (auto simp: Let_def split: sum.splits prod.splits)
    note p = swrite_props [OF sw ok1]
    have as2: "as2 = as1[s_ptr hs1 := (as1 ! s_ptr hs1)[?idx := a]]"
      using sw by (auto simp: swrite_def split: if_splits)
    have inv2: "store_extends as0 as2 \<and> s_ptr hs1 = length as0 \<and> length as0 < length as2
               \<and> s_len hs1 = s_len (h_headers h) \<and> s_cap hs1 = s_len hs1
               \<and> length (as2 ! s_ptr hs1) = s_len hs1"
      using st1 p(2) p(4) as2 store_extends_update [of as0 as1 "s_ptr hs1"]
      by auto
    have "store_extends as0 as' \<and> slice_ok as' hs' \<and> s_len hs' = s_len (h_headers h)
         \<and> sread as' hs' = override_slots (Headers (h_opts h)) (sread as2 hs1) attrs
         \<and> (hs' = h_headers h \<and> as' = as0 \<or> s_ptr hs' = length as0 \<and> length as0 < length as')"
    proof (rule Cons.IH [OF r Cons.prems(2)])
      show "(True \<and> store_extends as0 as2 \<and> s_ptr hs1 = length as0 \<and> length as0 < length as2
             \<and> s_len hs1 = s_len (h_headers h) \<and> s_cap hs1 = s_len hs1
             \<and> length (as2 ! s_ptr hs1) = s_len hs1)
         \<or> (\<not> True \<and> as2 = as0 \<and> hs1 = h_headers h)"
        using inv2 by blast
    qed
    then show ?thesis
      using True p(1) rd1 by (simp add: Let_def)
  qed
qed

lemma extractHeaders_loop_returns:
  assumes "s_len (h_headers h) = length (Headers (h_opts h))"
    and "ch \<longrightarrow> s_len hs = s_len (h_headers h)"
  shows "\<exists>r. extractHeaders_loop h as hs ch attrs = Inr r"
  using assms(2)
proof (induction attrs arbitrary: as hs ch)
  case Nil
  then show ?case by simp
next
  case (Cons a attrs)
  show ?case
  proof (cases "IndexFunc (Headers (h_opts h)) (\<lambda>s. s = Key a) \<ge> 0")
    case False
    obtain r where "extractHeaders_loop h as hs ch attrs = Inr r"
      using Cons.IH [of ch hs as] Cons.prems by blast
    then show ?thesis
      using False by (cases r) (auto simp: Let_def)
  next
    case True
    let ?idx = "nat (IndexFunc (Headers (h_opts h)) (\<lambda>s. s = Key a))"
    have idx: "?idx < s_len (h_headers h)"
      using True IndexFunc_bound [of "Headers (h_opts h)" "\<lambda>s. s = Key a"] assms(1) by simp
    obtain as1 hs1 where pre: "(if \<not> ch then (let (as, hs) = smake zero_Attr as (s_len (h_headers h))
                      in (scopy as hs (h_headers h), hs)) else (as, hs)) = (as1, hs1)"
      by (cases "(if \<not> ch then (let (as, hs) = smake zero_Attr as (s_len (h_headers h))
                      in (scopy as hs (h_headers h), hs)) else (as, hs))")
    then have len: "s_len hs1 = s_len (h_headers h)"
      using Cons.prems by (cases ch) (auto simp: smake_def Let_def)
    then obtain as2 where sw: "swrite as1 hs1 ?idx a = Inr as2"
      using idx swrite_returns [of ?idx hs1 as1 a] by auto
    obtain r where "extractHeaders_loop h as2 hs1 True attrs = Inr r"
      using Cons.IH [of True hs1 as2] len by blast
    then show ?thesis
      using True pre sw by (cases r) (auto simp: Let_def)
  qed
qed

subsection \<open>Derivation: the context\<close>

lemma ap_store_ctx_rel:
  assumes clipped: "s_cap ctx0 = s_len ctx0"
    and r: "ctx_rel bs0 ctx0 b c"
  shows "ctx_rel bs0 ctx0 (ap_store lb b s) (ap_list c s)"
proof -
  obtain bs sl where b: "b = (bs, sl)" by (cases b)
  obtain bs' sl' where g: "go_append (CHR 0x00) (growslice lb) bs sl s = (bs', sl')"
    by (cases "go_append (CHR 0x00) (growslice lb) bs sl s")
  have ext: "store_extends bs0 bs" and ok: "slice_ok bs sl" and rd: "sread bs sl = c"
    and own: "sl = ctx0 \<or> length bs0 \<le> s_ptr sl"
    using r b by (auto simp: ctx_rel_def)
  note p = go_append_props [OF g ok]
  have "store_extends bs0 bs' \<and> (sl' = ctx0 \<or> length bs0 \<le> s_ptr sl')"
  proof (cases "s_len sl + length s \<le> s_cap sl")
    case False
    then have "bs' = bs @ [sread bs sl @ s @ replicate (max (s_len sl + length s)
                 (growslice lb (s_cap sl) (s_len sl + length s)) - (s_len sl + length s)) (CHR 0x00)]"
      and "s_ptr sl' = length bs"
      using g by (auto simp: go_append_def Let_def)
    then show ?thesis
      using ext store_extends_length [OF ext] by (auto simp: store_extends_iff)
  next
    case True
    show ?thesis
    proof (cases "s = []")
      case True
      then have "bs' = bs" "sl' = sl"
        using g \<open>s_len sl + length s \<le> s_cap sl\<close> by (auto simp: go_append_def Let_def)
      then show ?thesis using ext own by simp
    next
      case False
      then have "sl \<noteq> ctx0"
        using True clipped by auto
      then have far: "length bs0 \<le> s_ptr sl"
        using own by simp
      have "bs' = bs[s_ptr sl := take (s_len sl) (bs ! s_ptr sl) @ s @ drop (s_len sl + length s) (bs ! s_ptr sl)]"
        and "s_ptr sl' = s_ptr sl"
        using g True False by (auto simp: go_append_def Let_def)
      then show ?thesis
        using ext far store_extends_update [of bs0 bs "s_ptr sl"] by simp
    qed
  qed
  then show ?thesis
    using b g p(1) p(2) rd by (simp add: ctx_rel_def ap_store_def ap_list_def)
qed

lemma for_attrs_writeAttr_rel:
  assumes ap: "\<And>b c s. R b c \<Longrightarrow> R (ap1 b s) (ap2 c s)" and "R b c"
  shows "rel_option (rel_prod (=) R)
           (for_attrs (\<lambda>e buf a. writeAttr n ap1 lb opts e buf a grp) e b as)
           (for_attrs (\<lambda>e buf a. writeAttr n ap2 lb opts e buf a grp) e c as)"
proof (rule for_attrs_rel [where R = R])
  show "rel_option (rel_prod (=) R) (writeAttr n ap1 lb opts e b a grp) (writeAttr n ap2 lb opts e c a grp)"
    if "R b c" for e b c a
    using ap that by (rule writeAttr_rel [where R = R])
  show "R b c" by fact
qed

lemma for_attrs_writeAttr_prefix:
  "for_attrs (\<lambda>e buf a. writeAttr n ap_list lb opts e buf a grp) e (pre @ b) as
     = map_option (\<lambda>(e', b'). (e', pre @ b'))
         (for_attrs (\<lambda>e buf a. writeAttr n ap_list lb opts e buf a grp) e b as)"
proof -
  have "rel_option (rel_prod (=) (\<lambda>x y. x = pre @ y))
          (for_attrs (\<lambda>e buf a. writeAttr n ap_list lb opts e buf a grp) e (pre @ b) as)
          (for_attrs (\<lambda>e buf a. writeAttr n ap_list lb opts e buf a grp) e b as)"
    by (rule for_attrs_writeAttr_rel [where R = "\<lambda>x y. x = pre @ y"]) (simp_all add: ap_list_def)
  then show ?thesis
    by (cases rule: option.rel_cases) auto
qed

text \<open>
  The loop of \<open>WithAttrs\<close> on a context without spare capacity: no array of the store
  is written, and the new context is the old one followed by the bytes of the attributes.
\<close>

lemma WithAttrs_loop_context:
  assumes clipped: "s_cap ctx0 = s_len ctx0" and ok: "slice_ok bs0 ctx0"
    and run: "for_attrs (\<lambda>e buf a. writeAttr fuel (ap_store lb) lb (h_opts h) e buf a (h_groupPrefix h))
                 enc (bs0, ctx0) attrs = Some (enc', bs, newCtx)"
  shows "\<exists>bytes. bound_bytes fuel lb h enc attrs = Some (enc', bytes)
           \<and> store_extends bs0 bs \<and> slice_ok bs newCtx
           \<and> sread bs newCtx = sread bs0 ctx0 @ bytes"
proof -
  let ?R = "ctx_rel bs0 ctx0"
  have start: "?R (bs0, ctx0) (sread bs0 ctx0)"
    using ok by (simp add: ctx_rel_def)
  have "rel_option (rel_prod (=) ?R)
          (for_attrs (\<lambda>e buf a. writeAttr fuel (ap_store lb) lb (h_opts h) e buf a (h_groupPrefix h))
             enc (bs0, ctx0) attrs)
          (for_attrs (\<lambda>e buf a. writeAttr fuel ap_list lb (h_opts h) e buf a (h_groupPrefix h))
             enc (sread bs0 ctx0) attrs)"
    using ap_store_ctx_rel [OF clipped] start
    by (rule for_attrs_writeAttr_rel [where R = ?R])
  then obtain c where
    l: "for_attrs (\<lambda>e buf a. writeAttr fuel ap_list lb (h_opts h) e buf a (h_groupPrefix h))
          enc (sread bs0 ctx0) attrs = Some (enc', c)"
    and r: "?R (bs, newCtx) c"
    using run by (cases rule: option.rel_cases) auto
  have "Some (enc', c) = map_option (\<lambda>(e', b'). (e', sread bs0 ctx0 @ b')) (bound_bytes fuel lb h enc attrs)"
    using l for_attrs_writeAttr_prefix [of fuel lb "h_opts h" "h_groupPrefix h" enc "sread bs0 ctx0" "[]" attrs]
    by (simp add: bound_bytes_def)
  then obtain bytes where
    "bound_bytes fuel lb h enc attrs = Some (enc', bytes)" "c = sread bs0 ctx0 @ bytes"
    by (cases "bound_bytes fuel lb h enc attrs") auto
  then show ?thesis
    using r by (auto simp: ctx_rel_def)
qed

subsection \<open>What a derivation does\<close>

lemma encoder_ok_extends: "store_extends as as' \<Longrightarrow> encoder_ok as e \<Longrightarrow> encoder_ok as' e"
  using store_extends_length [of as as']
  by (auto simp: encoder_ok_def store_extends_slice_ok)

lemma handler_ok_extends:
  assumes "store_extends (st_bytes st) (st_bytes st')" and "store_extends (st_attrs st) (st_attrs st')"
    and "handler_ok st h"
  shows "handler_ok st' h"
    and "sread (st_bytes st') (h_context h) = sread (st_bytes st) (h_context h)"
    and "sread (st_attrs st') (h_headers h) = sread (st_attrs st) (h_headers h)"
  using assms by (auto simp: handler_ok_def store_extends_slice_ok store_extends_sread)

lemma Clip_props:
  assumes "slice_ok bs sl"
  shows "slice_ok bs (Clip sl)" and "s_cap (Clip sl) = s_len (Clip sl)"
    and "sread bs (Clip sl) = sread bs sl"
  using assms by (auto simp: Clip_def slice_ok_def sread_def)

lemma WithAttrs_props:
  assumes run: "WithAttrs fuel lb h attrs st = Inr (h', attrs', st')"
    and h_ok: "handler_ok st h" and p_ok: "pool_ok st"
  shows "attrs' = map (\<lambda>a. if Key a \<in> set (Headers (h_opts h)) then zero_Attr else a) attrs"
    and "store_extends (st_bytes st) (st_bytes st')"
    and "store_extends (st_attrs st) (st_attrs st')"
    and "handler_ok st' h'"
    and "sread (st_attrs st') (h_headers h')
           = override_slots (Headers (h_opts h)) (sread (st_attrs st) (h_headers h)) attrs"
    and "\<exists>enc e bytes. bound_bytes fuel lb h enc attrs' = Some (e, bytes)
           \<and> enc_groups enc = (if ReplaceAttr (h_opts h) \<noteq> None
                                 then sread (st_groups st) (h_groups h) else [])
           \<and> sread (st_bytes st') (h_context h') = sread (st_bytes st) (h_context h) @ bytes"
    and "st_pool st' = tl (st_pool st)" and "st_sink st' = st_sink st"
    and "h_opts h' = h_opts h \<and> h_groupPrefix h' = h_groupPrefix h \<and> h_groups h' = h_groups h
         \<and> h_out h' = h_out h"
    and "h_headers h' = h_headers h \<or> s_ptr (h_headers h') = length (st_attrs st)"
    and "pool_ok st'"
    and "st_groups st' = st_groups st"
proof -
  from run obtain headers as1 where
    ex: "extractHeaders h (st_attrs st) attrs = Inr (headers, as1, attrs')"
    by (auto simp: WithAttrs_def Let_def split: sum.splits prod.splits option.splits)
  define st1 where "st1 = st\<lparr>st_attrs := as1\<rparr>"
  obtain enc st2 where ne: "newEncoder h st1 = (enc, st2)"
    by (cases "newEncoder h st1")
  from run ex ne obtain enc' bs newCtx where
    loop: "for_attrs (\<lambda>e buf a. writeAttr fuel (ap_store lb) lb (h_opts h) e buf a (h_groupPrefix h))
                 enc (st_bytes st2, h_context h) attrs' = Some (enc', bs, newCtx)"
    and h': "h' = \<lparr>h_opts = h_opts h, h_out = h_out h, h_groupPrefix = h_groupPrefix h,
                  h_groups = h_groups h, h_context = Clip newCtx, h_headers = headers\<rparr>"
    and st': "st' = st2\<lparr>st_bytes := bs\<rparr>"
    by (auto simp: WithAttrs_def Let_def st1_def split: sum.splits prod.splits option.splits)
  have hs_ok: "slice_ok (st_attrs st) (h_headers h)"
    and hs_len: "s_len (h_headers h) = length (Headers (h_opts h))"
    and cx_ok: "slice_ok (st_bytes st) (h_context h)"
    and cx_clip: "s_cap (h_context h) = s_len (h_context h)"
    using h_ok by (auto simp: handler_ok_def)
  have ex': "extractHeaders_loop h (st_attrs st) (h_headers h) False attrs = Inr (headers, as1, attrs')"
    using ex by (simp add: extractHeaders_def)
  show a: "attrs' = map (\<lambda>a. if Key a \<in> set (Headers (h_opts h)) then zero_Attr else a) attrs"
    using extractHeaders_loop_attrs [OF ex'] .
  have sl: "store_extends (st_attrs st) as1 \<and> slice_ok as1 headers \<and> s_len headers = s_len (h_headers h)
         \<and> sread as1 headers = override_slots (Headers (h_opts h)) (sread (st_attrs st) (h_headers h)) attrs
         \<and> (headers = h_headers h \<and> as1 = st_attrs st
             \<or> s_ptr headers = length (st_attrs st) \<and> length (st_attrs st) < length as1)"
    by (rule extractHeaders_loop_slots [OF ex' hs_ok]) simp
  have p1: "pool_ok st1"
    using p_ok sl encoder_ok_extends [of "st_attrs st" as1]
    by (auto simp: pool_ok_def st1_def list_all_iff)
  note n = newEncoder_props [OF p1 ne]
  have ext2: "store_extends as1 (st_attrs st2)"
    using n(8) by (auto simp: st1_def)
  have bytes2: "st_bytes st2 = st_bytes st"
    using n(6) by (simp add: st1_def)
  from WithAttrs_loop_context [OF cx_clip cx_ok loop [unfolded bytes2]] obtain bytes where
    bb: "bound_bytes fuel lb h enc attrs' = Some (enc', bytes)"
    and be: "store_extends (st_bytes st) bs" and bk: "slice_ok bs newCtx"
    and br: "sread bs newCtx = sread (st_bytes st) (h_context h) @ bytes"
    by blast
  show "store_extends (st_bytes st) (st_bytes st')"
    using be st' by simp
  show ea: "store_extends (st_attrs st) (st_attrs st')"
    using sl ext2 st' store_extends_trans by auto
  show "handler_ok st' h'"
    using h' st' sl ext2 hs_len bk Clip_props [OF bk] store_extends_slice_ok [OF ext2]
    by (simp add: handler_ok_def)
  show "sread (st_attrs st') (h_headers h')
           = override_slots (Headers (h_opts h)) (sread (st_attrs st) (h_headers h)) attrs"
    using h' st' sl store_extends_sread [OF ext2] by simp
  show "\<exists>enc e bytes. bound_bytes fuel lb h enc attrs' = Some (e, bytes)
           \<and> enc_groups enc = (if ReplaceAttr (h_opts h) \<noteq> None
                                 then sread (st_groups st) (h_groups h) else [])
           \<and> sread (st_bytes st') (h_context h') = sread (st_bytes st) (h_context h) @ bytes"
    using bb br n(9) h' st' Clip_props(3) [OF bk] by (auto simp: st1_def)
  show "st_pool st' = tl (st_pool st)"
    using n(10) st' by (simp add: st1_def)
  show "st_sink st' = st_sink st"
    using n(7) st' by (simp add: st1_def)
  show "h_opts h' = h_opts h \<and> h_groupPrefix h' = h_groupPrefix h \<and> h_groups h' = h_groups h
         \<and> h_out h' = h_out h"
    using h' by simp
  show "h_headers h' = h_headers h \<or> s_ptr (h_headers h') = length (st_attrs st)"
    using h' sl by auto
  show "pool_ok st'"
    using p_ok ea \<open>st_pool st' = tl (st_pool st)\<close> encoder_ok_extends [OF ea]
    by (cases "st_pool st") (auto simp: pool_ok_def list_all_iff)
  show "st_groups st' = st_groups st"
    using n(13) st' by (simp add: st1_def)
qed

subsection \<open>What a render does to the state\<close>

lemma Handle_headers_keeps_enc:
  "enc_headers (Handle_headers lb h headerLen enc as hs) = enc_headers enc"
proof -
  define e1 where "e1 = (if s_len hs > 0
                 then via_headerBuf (\<lambda>e b. writeHeaders ap_list lb (h_opts h) e b (sread as hs)) enc
                 else enc)"
  have "enc_headers e1 = enc_headers enc"
    using via_headerBuf_keeps [of "\<lambda>e b. writeHeaders ap_list lb (h_opts h) e b (sread as hs)" enc,
            OF writeHeaders_enc]
    by (simp add: e1_def)
  moreover have "Handle_headers lb h headerLen enc as hs =
      (if length (headerBuf e1) > headerLen
       then e1\<lparr>headerBuf := writeHeaderSeparator ap_list (h_opts h) (headerBuf e1)\<rparr> else e1)"
    by (simp add: Handle_headers_def e1_def Let_def)
  ultimately show ?thesis by simp
qed

lemma Handle_terminate_keeps_enc: "enc_headers (Handle_terminate enc) = enc_headers enc"
  by (simp add: Handle_terminate_def)

lemma Handle_flush_state:
  "st_bytes (snd (Handle_flush h enc st)) = st_bytes st
   \<and> st_attrs (snd (Handle_flush h enc st)) = st_attrs st
   \<and> st_groups (snd (Handle_flush h enc st)) = st_groups st
   \<and> (st_pool (snd (Handle_flush h enc st)) = st_pool st
      \<or> st_pool (snd (Handle_flush h enc st))
          = enc\<lparr>headerBuf := [], middleBuf := [], trailerBuf := [], enc_groups := []\<rparr> # st_pool st)"
  by (auto simp: Handle_flush_def free_def encoderPool_Put_def split: prod.split option.split)

lemma Handle_props:
  assumes run: "Handle fuel lb h rec st = Inr (err, st')"
    and p_ok: "pool_ok st" and h_ok: "handler_ok st h"
  shows "st_bytes st' = st_bytes st"
    and "pool_ok st'"
    and "st_groups st' = st_groups st"
    and "\<And>h2. handler_ok st h2 \<Longrightarrow> headers_apart st h2 \<Longrightarrow>
           handler_ok st' h2 \<and> headers_apart st' h2
           \<and> sread (st_attrs st') (h_headers h2) = sread (st_attrs st) (h_headers h2)"
proof -
  from run obtain encF st1 where
    en: "Handle_encode fuel lb h rec st = Inr (encF, st1)"
    and fl: "Handle_flush h encF st1 = (err, st')"
    by (auto simp: Handle_def split: sum.splits)
  obtain enc0 st0 where ne: "newEncoder h st = (enc0, st0)"
    by (cases "newEncoder h st")
  obtain enc1 headerLen where hb: "Handle_begin lb h rec st0 enc0 = (enc1, headerLen)"
    by (cases "Handle_begin lb h rec st0 enc0")
  from en ne hb obtain encA as hs lh where
    loop: "Handle_attrs fuel lb h (enc1, st_attrs st0, h_headers h, False) (rec_Attrs rec)
             = Inr (encA, as, hs, lh)"
    and encF: "encF = Handle_terminate (Handle_headers lb h headerLen encA as hs)"
    and st1: "st1 = st0\<lparr>st_attrs := as\<rparr>"
    by (auto simp: Handle_encode_def split: sum.splits)
  note n = newEncoder_props [OF p_ok ne]
  note b = Handle_begin_keeps [OF hb]
  define as0 where "as0 = st_attrs st0"
  define e0 where "e0 = enc_headers enc0"
  have ext: "store_extends (st_attrs st) as0"
    using n(8) by (auto simp: as0_def)
  have h1: "slice_ok as0 (h_headers h)"
    using h_ok ext by (auto simp: handler_ok_def store_extends_slice_ok)
  have e1: "slice_ok as0 (enc_headers enc1)" "s_len (enc_headers enc1) = 0" "enc_headers enc1 = e0"
    using n(4,5) b by (simp_all add: as0_def e0_def)
  have inv: "local_headers_inv h (enc_headers enc1) as0 (as, hs, lh) \<and> enc_headers encA = enc_headers enc1"
    using Handle_attrs_headers [OF loop [folded as0_def] h1 e1(1,2) local_headers_inv_start] by simp
  then have len: "length as0 \<le> length as"
    and same_len: "\<And>p. p < length as0 \<Longrightarrow> length (as ! p) = length (as0 ! p)"
    and same: "\<And>p. p < length as0 \<Longrightarrow> p \<noteq> s_ptr e0 \<Longrightarrow> as ! p = as0 ! p"
    using e1(3) by (auto simp: local_headers_inv_def)
  have encF_h: "enc_headers encF = e0"
    using encF inv e1(3) by (simp add: Handle_terminate_keeps_enc Handle_headers_keeps_enc)
  have sl_keep: "slice_ok as sl" if "slice_ok (st_attrs st) sl" for sl
    using that ext len same_len slice_ok_same_lengths [of as0 sl as] store_extends_slice_ok [of "st_attrs st" as0 sl]
    by auto
  have st'_attrs: "st_attrs st' = as" and st'_bytes: "st_bytes st' = st_bytes st"
    and st'_groups: "st_groups st' = st_groups st"
    and st'_pool: "st_pool st' = tl (st_pool st)
       \<or> st_pool st' = encF\<lparr>headerBuf := [], middleBuf := [], trailerBuf := [], enc_groups := []\<rparr>
                          # tl (st_pool st)"
    using Handle_flush_state [of h encF st1] fl st1 n(6) n(10) n(13) by auto
  show "st_bytes st' = st_bytes st" by fact
  show "st_groups st' = st_groups st" by fact
  have e0_in: "s_ptr e0 < length as"
    using n(12) len by (simp add: e0_def as0_def)
  have e0_ok: "slice_ok as e0"
    using e1(1,3) len same_len slice_ok_same_lengths [of as0 e0 as] by auto
  have tl_ok: "encoder_ok as e" if "e \<in> set (tl (st_pool st))" for e
  proof -
    have "e \<in> set (st_pool st)"
      using that by (cases "st_pool st") auto
    then have ok: "encoder_ok (st_attrs st) e"
      using p_ok by (auto simp: pool_ok_def list_all_iff)
    then have "s_ptr (enc_headers e) < length as"
      using store_extends_length [OF ext] len by (auto simp: encoder_ok_def)
    then show ?thesis
      using ok sl_keep by (auto simp: encoder_ok_def)
  qed
  have fr_ok: "encoder_ok as (encF\<lparr>headerBuf := [], middleBuf := [], trailerBuf := [], enc_groups := []\<rparr>)"
    using encF_h e0_in e0_ok e1(2,3) by (simp add: encoder_ok_def)
  show "pool_ok st'"
    using st'_attrs st'_pool tl_ok fr_ok by (auto simp: pool_ok_def list_all_iff)
  show "handler_ok st' h2 \<and> headers_apart st' h2
           \<and> sread (st_attrs st') (h_headers h2) = sread (st_attrs st) (h_headers h2)"
    if ok2: "handler_ok st h2" and ap2: "headers_apart st h2" for h2
  proof -
    have hk: "handler_ok st' h2"
      using ok2 st'_attrs st'_bytes sl_keep by (simp add: handler_ok_def)
    have away: "s_len (h_headers h2) = 0 \<or> s_ptr e0 \<noteq> s_ptr (h_headers h2)"
    proof (cases "s_len (h_headers h2) = 0")
      case True
      then show ?thesis by simp
    next
      case False
      then have in2: "s_ptr (h_headers h2) < length (st_attrs st)"
        using ok2 by (auto simp: handler_ok_def slice_ok_def)
      from n(11) show ?thesis
      proof
        assume "length (st_attrs st) \<le> s_ptr (enc_headers enc0)"
        then show ?thesis using in2 by (simp add: e0_def)
      next
        assume "st_pool st \<noteq> [] \<and> enc_headers enc0 = enc_headers (hd (st_pool st))"
        then show ?thesis
          using ap2 False by (cases "st_pool st") (auto simp: headers_apart_def e0_def)
      qed
    qed
    have ha: "headers_apart st' h2"
    proof -
      have "s_len (h_headers h2) = 0 \<or> s_ptr (enc_headers e) \<noteq> s_ptr (h_headers h2)"
        if "e \<in> set (tl (st_pool st))" for e
      proof -
        have "e \<in> set (st_pool st)"
          using that by (cases "st_pool st") auto
        then show ?thesis
          using ap2 by (auto simp: headers_apart_def list_all_iff)
      qed
      then show ?thesis
        using st'_pool away encF_h by (auto simp: headers_apart_def list_all_iff)
    qed
    have rd: "sread (st_attrs st') (h_headers h2) = sread (st_attrs st) (h_headers h2)"
    proof (cases "s_len (h_headers h2) = 0")
      case True
      then show ?thesis by (simp add: sread_def)
    next
      case False
      then have in2: "s_ptr (h_headers h2) < length (st_attrs st)"
        using ok2 by (auto simp: handler_ok_def slice_ok_def)
      then have "s_ptr (h_headers h2) < length as0"
        using store_extends_length [OF ext] by simp
      then have "as ! s_ptr (h_headers h2) = as0 ! s_ptr (h_headers h2)"
        using same away False by auto
      also have "\<dots> = st_attrs st ! s_ptr (h_headers h2)"
        using store_extends_nth [OF ext in2] .
      finally show ?thesis
        using st'_attrs by (simp add: sread_def)
    qed
    show ?thesis using hk ha rd by simp
  qed
qed

subsection \<open>What one operation, and a sequence of them, does to the handlers made so far\<close>

lemma world_okI:
  "pool_ok st \<Longrightarrow> (\<And>h. h \<in> set hs \<Longrightarrow> handler_ok st h \<and> headers_apart st h) \<Longrightarrow> world_ok (hs, st)"
  by (simp add: world_ok_def list_all_iff)

lemma world_okD:
  "world_ok (hs, st) \<Longrightarrow> pool_ok st"
  "world_ok (hs, st) \<Longrightarrow> h \<in> set hs \<Longrightarrow> handler_ok st h"
  "world_ok (hs, st) \<Longrightarrow> h \<in> set hs \<Longrightarrow> headers_apart st h"
  by (simp_all add: world_ok_def list_all_iff)

lemma headers_apart_tl:
  "headers_apart st h \<Longrightarrow> st_pool st' = tl (st_pool st) \<Longrightarrow> headers_apart st' h"
  by (cases "st_pool st") (auto simp: headers_apart_def)

lemma pool_ok_below:
  "pool_ok st \<Longrightarrow> e \<in> set (st_pool st) \<Longrightarrow> s_ptr (enc_headers e) < length (st_attrs st)"
  by (auto simp: pool_ok_def list_all_iff encoder_ok_def)

lemma headers_apart_fresh:
  assumes "pool_ok st" and "length (st_attrs st) \<le> s_ptr (h_headers h)"
  shows "headers_apart st h"
  using pool_ok_below [OF assms(1)] assms(2)
  by (fastforce simp: headers_apart_def list_all_iff)

lemma NewHandler_world:
  assumes w: "world_ok (hs, st)" and n: "NewHandler dflt out' opts st = (h, st')"
  shows "world_ok (hs @ [h], st')"
    and "store_extends (st_attrs st) (st_attrs st')" and "st_bytes st' = st_bytes st"
    and "header_slots st' h = replicate (length (Headers (h_opts h))) zero_Attr"
    and "context_bytes st' h = []"
proof -
  define o1 where "o1 = (case opts of
                    None \<Rightarrow> \<lparr>AddSource = False, Level = slog_LevelInfo, NoColor = False,
                              TimeFormat = [], Theme = dflt, Headers = [], ReplaceAttr = None\<rparr>
                  | Some opts \<Rightarrow> opts)"
  define o2 where "o2 = (if TimeFormat o1 = [] then o1\<lparr>TimeFormat := time_DateTime\<rparr> else o1)"
  have h: "h = \<lparr>h_opts = o2, h_out = out', h_groupPrefix = [], h_groups = nil_slice,
           h_context = nil_slice,
           h_headers = \<lparr>s_ptr = length (st_attrs st), s_len = length (Headers o2),
                        s_cap = length (Headers o2)\<rparr>\<rparr>"
    and st': "st' = st\<lparr>st_attrs := st_attrs st @ [replicate (length (Headers o2)) zero_Attr]\<rparr>"
    using n unfolding NewHandler_def Let_def smake_def o1_def o2_def by auto
  show ext: "store_extends (st_attrs st) (st_attrs st')" and b: "st_bytes st' = st_bytes st"
    using st' by simp_all
  have extb: "store_extends (st_bytes st) (st_bytes st')"
    using b by simp
  show "header_slots st' h = replicate (length (Headers (h_opts h))) zero_Attr"
    using h st' by (simp add: header_slots_def sread_def)
  show "context_bytes st' h = []"
    using h by (simp add: context_bytes_def sread_def nil_slice_def)
  have p: "pool_ok st'"
    using world_okD(1) [OF w] encoder_ok_extends [OF ext] st'
    by (auto simp: pool_ok_def list_all_iff)
  have hk: "handler_ok st' h"
    using h st' by (simp add: handler_ok_def slice_ok_def nil_slice_def)
  have ha: "headers_apart st' h"
    using world_okD(1) [OF w] h st'
    by (auto simp: headers_apart_def list_all_iff dest!: pool_ok_below)
  have old: "handler_ok st' h2 \<and> headers_apart st' h2" if "h2 \<in> set hs" for h2
    using handler_ok_extends(1) [OF extb ext world_okD(2) [OF w that]] world_okD(3) [OF w that] st'
    by (simp add: headers_apart_def)
  show "world_ok (hs @ [h], st')"
    using p hk ha old by (auto intro!: world_okI)
qed

lemma WithGroup_props:
  assumes "WithGroup lb h name st = (h', st')"
  shows "h_context h' = h_context h" and "h_headers h' = h_headers h"
    and "h_opts h' = h_opts h" and "h_out h' = h_out h"
    and "st_bytes st' = st_bytes st" and "st_attrs st' = st_attrs st"
    and "st_pool st' = st_pool st" and "st_sink st' = st_sink st"
  using assms by (auto simp: WithGroup_def Let_def split: prod.splits)

lemma step_props:
  assumes w: "world_ok (hs, st)" and s: "step fuel lb x (hs, st) = Inr (hs', st')"
  shows "world_ok (hs', st')"
    and "\<exists>new. hs' = hs @ new"
    and "store_extends (st_bytes st) (st_bytes st')"
    and "\<And>h. h \<in> set hs \<Longrightarrow> context_bytes st' h = context_bytes st h"
    and "\<And>h. h \<in> set hs \<Longrightarrow> header_slots st' h = header_slots st h"
proof -
  note p = world_okD(1) [OF w]
  have all: "world_ok (hs', st') \<and> (\<exists>new. hs' = hs @ new)
     \<and> store_extends (st_bytes st) (st_bytes st')
     \<and> (\<forall>h \<in> set hs. context_bytes st' h = context_bytes st h
                      \<and> header_slots st' h = header_slots st h)"
  proof (cases x)
    case (Render i rec)
    show ?thesis
    proof (cases "i < length hs")
      case False
      then show ?thesis using s w Render by simp
    next
      case True
      then have mem: "hs ! i \<in> set hs" by simp
      from s Render True obtain err where
        hd: "Handle fuel lb (hs ! i) rec st = Inr (err, st')" and hs': "hs' = hs"
        by (auto split: sum.splits)
      note f = Handle_props [OF hd p world_okD(2) [OF w mem]]
      have "handler_ok st' h \<and> headers_apart st' h
            \<and> sread (st_attrs st') (h_headers h) = sread (st_attrs st) (h_headers h)"
        if "h \<in> set hs" for h
        using f(4) [OF world_okD(2) [OF w that] world_okD(3) [OF w that]] .
      then show ?thesis
        using f(1,2) hs' by (auto intro!: world_okI simp: context_bytes_def header_slots_def)
    qed
  next
    case (DeriveAttrs i attrs)
    show ?thesis
    proof (cases "i < length hs")
      case False
      then show ?thesis using s w DeriveAttrs by simp
    next
      case True
      then have mem: "hs ! i \<in> set hs" by simp
      from s DeriveAttrs True obtain h' attrs' where
        wa: "WithAttrs fuel lb (hs ! i) attrs st = Inr (h', attrs', st')" and hs': "hs' = hs @ [h']"
        by (auto split: sum.splits)
      note f = WithAttrs_props [OF wa world_okD(2) [OF w mem] p]
      have old: "handler_ok st' h \<and> headers_apart st' h
            \<and> context_bytes st' h = context_bytes st h \<and> header_slots st' h = header_slots st h"
        if "h \<in> set hs" for h
        using handler_ok_extends [OF f(2,3) world_okD(2) [OF w that]]
          headers_apart_tl [OF world_okD(3) [OF w that] f(7)]
        by (simp add: context_bytes_def header_slots_def)
      have "headers_apart st' h'"
        using f(10)
      proof
        assume "h_headers h' = h_headers (hs ! i)"
        then show ?thesis
          using headers_apart_tl [OF world_okD(3) [OF w mem] f(7)] by (simp add: headers_apart_def)
      next
        assume "s_ptr (h_headers h') = length (st_attrs st)"
        moreover have "s_ptr (enc_headers e) < length (st_attrs st)" if "e \<in> set (st_pool st')" for e
        proof -
          have "e \<in> set (st_pool st)"
            using that f(7) by (cases "st_pool st") auto
          then show ?thesis by (rule pool_ok_below [OF p])
        qed
        ultimately show ?thesis
          by (fastforce simp: headers_apart_def list_all_iff)
      qed
      then show ?thesis
        using f(2,4,11) old hs' by (auto intro!: world_okI)
    qed
  next
    case (DeriveGroup i name)
    show ?thesis
    proof (cases "i < length hs")
      case False
      then show ?thesis using s w DeriveGroup by simp
    next
      case True
      then have mem: "hs ! i \<in> set hs" by simp
      from s DeriveGroup True obtain h' where
        wg: "WithGroup lb (hs ! i) name st = (h', st')" and hs': "hs' = hs @ [h']"
        by (auto split: prod.splits)
      note g = WithGroup_props [OF wg]
      have same: "handler_ok st' h = handler_ok st h" "headers_apart st' h = headers_apart st h"
        "context_bytes st' h = context_bytes st h" "header_slots st' h = header_slots st h" for h
        using g(5-7)
        by (simp_all add: handler_ok_def headers_apart_def context_bytes_def header_slots_def)
      have "handler_ok st h' \<and> headers_apart st h'"
        using world_okD(2,3) [OF w mem] g(1-3)
        by (simp add: handler_ok_def headers_apart_def)
      moreover have "pool_ok st'"
        using p g(6,7) by (simp add: pool_ok_def)
      ultimately show ?thesis
        using same hs' world_okD(2,3) [OF w] g(5) by (auto intro!: world_okI)
    qed
  qed
  show "world_ok (hs', st')" using all by simp
  show "\<exists>new. hs' = hs @ new" using all by simp
  show "store_extends (st_bytes st) (st_bytes st')" using all by simp
  show "context_bytes st' h = context_bytes st h" if "h \<in> set hs" for h using all that by simp
  show "header_slots st' h = header_slots st h" if "h \<in> set hs" for h using all that by simp
qed

lemma run_props:
  assumes "world_ok (hs, st)" and "run fuel lb xs (hs, st) = Inr (hs', st')"
  shows "world_ok (hs', st') \<and> (\<exists>new. hs' = hs @ new)
     \<and> store_extends (st_bytes st) (st_bytes st')
     \<and> (\<forall>h \<in> set hs. context_bytes st' h = context_bytes st h
                      \<and> header_slots st' h = header_slots st h)"
  using assms
proof (induction xs arbitrary: hs st)
  case Nil
  then show ?case by simp
next
  case (Cons x xs)
  from Cons.prems(2) obtain hs1 st1 where
    s: "step fuel lb x (hs, st) = Inr (hs1, st1)" and r: "run fuel lb xs (hs1, st1) = Inr (hs', st')"
    by (auto split: sum.splits)
  note f = step_props [OF Cons.prems(1) s]
  note ih = Cons.IH [OF f(1) r]
  from f(2) obtain new where new: "hs1 = hs @ new" ..
  from ih obtain new' where new': "hs' = hs1 @ new'" by blast
  have "\<exists>n. hs' = hs @ n"
    using new new' by simp
  moreover have "store_extends (st_bytes st) (st_bytes st')"
    using f(3) ih store_extends_trans by blast
  moreover have "context_bytes st' h = context_bytes st h \<and> header_slots st' h = header_slots st h"
    if "h \<in> set hs" for h
  proof -
    have "h \<in> set hs1" using that new by simp
    then show ?thesis using ih f(4,5) [OF that] by simp
  qed
  ultimately show ?case using ih by blast
qed

subsection \<open>The header slots a render writes\<close>

lemma Handle_headers_slots:
  assumes "sread as hs = sread as' hs'"
  shows "Handle_headers lb h n enc as hs = Handle_headers lb h n enc as' hs'"
proof -
  have z: "via_headerBuf (\<lambda>e b. writeHeaders ap_list lb (h_opts h) e b []) enc = enc"
    by (simp add: via_headerBuf_def)
  have "(if s_len sl > 0
         then via_headerBuf (\<lambda>e b. writeHeaders ap_list lb (h_opts h) e b (sread st sl)) enc
         else enc)
        = via_headerBuf (\<lambda>e b. writeHeaders ap_list lb (h_opts h) e b (sread st sl)) enc"
    for st sl
    using z by (simp add: sread_def)
  then show ?thesis
    using assms by (simp add: Handle_headers_def Let_def)
qed

lemma Handle_encode_headers:
  assumes p_ok: "pool_ok st" and h_ok: "handler_ok st h"
    and run: "Handle_encode fuel lb h rec st = Inr (enc', st')"
  shows "\<exists>enc n as hs.
           enc' = Handle_terminate (Handle_headers lb h n enc as hs)
         \<and> sread as hs = override_slots (Headers (h_opts h)) (sread (st_attrs st) (h_headers h))
                            (rec_Attrs rec)"
proof -
  obtain enc0 st0 where ne: "newEncoder h st = (enc0, st0)"
    by (cases "newEncoder h st")
  obtain enc1 headerLen where hb: "Handle_begin lb h rec st0 enc0 = (enc1, headerLen)"
    by (cases "Handle_begin lb h rec st0 enc0")
  from run ne hb obtain encA as hs lh where
    loop: "Handle_attrs fuel lb h (enc1, st_attrs st0, h_headers h, False) (rec_Attrs rec)
             = Inr (encA, as, hs, lh)"
    and encF: "enc' = Handle_terminate (Handle_headers lb h headerLen encA as hs)"
    by (auto simp: Handle_encode_def split: sum.splits)
  note n = newEncoder_props [OF p_ok ne]
  note b = Handle_begin_keeps [OF hb]
  have ext: "store_extends (st_attrs st) (st_attrs st0)"
    using n(8) by auto
  have h0: "slice_ok (st_attrs st) (h_headers h)"
    using h_ok by (simp add: handler_ok_def)
  have h1: "slice_ok (st_attrs st0) (h_headers h)"
    using h0 ext by (rule store_extends_slice_ok [rotated])
  have e1: "slice_ok (st_attrs st0) (enc_headers enc1)" "s_len (enc_headers enc1) = 0"
    using n(4,5) b by simp_all
  have "sread as hs = override_slots (Headers (h_opts h)) (sread (st_attrs st0) (h_headers h))
                        (rec_Attrs rec)"
    using Handle_attrs_headers [OF loop h1 e1 local_headers_inv_start] by simp
  then show ?thesis
    using encF store_extends_sread [OF ext h0] by auto
qed

text \<open>A slot whose key none of the attributes has keeps its value.\<close>

lemma nth_IndexFunc: "IndexFunc xs (\<lambda>s. s = k) \<ge> 0 \<Longrightarrow> xs ! nat (IndexFunc xs (\<lambda>s. s = k)) = k"
proof (induction xs)
  case Nil
  then show ?case by simp
next
  case (Cons x xs)
  show ?case
  proof (cases "x = k")
    case True
    then show ?thesis by simp
  next
    case False
    then have "IndexFunc xs (\<lambda>s. s = k) \<ge> 0"
      using Cons.prems by (auto simp: Let_def split: if_splits)
    then show ?thesis
      using False Cons.IH by (simp add: Let_def nat_add_distrib)
  qed
qed

lemma override_slots_length [simp]: "length (override_slots keys slots attrs) = length slots"
  by (induction attrs arbitrary: slots) (simp_all add: Let_def)

lemma override_slots_other:
  assumes "keys ! idx \<notin> Key ` set attrs"
  shows "override_slots keys slots attrs ! idx = slots ! idx"
  using assms
proof (induction attrs arbitrary: slots)
  case Nil
  then show ?case by simp
next
  case (Cons a attrs)
  have ne: "keys ! idx \<noteq> Key a" and rest: "keys ! idx \<notin> Key ` set attrs"
    using Cons.prems by auto
  show ?case
  proof (cases "IndexFunc keys (\<lambda>s. s = Key a) \<ge> 0")
    case False
    then show ?thesis using Cons.IH [OF rest] by (simp add: Let_def)
  next
    case True
    then have "nat (IndexFunc keys (\<lambda>s. s = Key a)) \<noteq> idx"
      using nth_IndexFunc [OF True] ne by auto
    then show ?thesis
      using True Cons.IH [OF rest] by (simp add: Let_def)
  qed
qed

subsection \<open>Derivation returns\<close>

lemma extractHeaders_returns:
  assumes "s_len (h_headers h) = length (Headers (h_opts h))"
  shows "\<exists>hs as'. extractHeaders h as attrs
           = Inr (hs, as', map (\<lambda>a. if Key a \<in> set (Headers (h_opts h)) then zero_Attr else a) attrs)"
proof -
  obtain r where r: "extractHeaders_loop h as (h_headers h) False attrs = Inr r"
    using extractHeaders_loop_returns [OF assms, of False "h_headers h" as attrs] by auto
  obtain hs as' attrs' where "r = (hs, as', attrs')"
    by (cases r)
  then show ?thesis
    using r extractHeaders_loop_attrs [of h as "h_headers h" False attrs hs as' attrs']
    by (simp add: extractHeaders_def)
qed

lemma WithAttrs_returns:
  assumes nohook: "ReplaceAttr (h_opts h) = None"
    and len: "s_len (h_headers h) = length (Headers (h_opts h))"
  shows "\<exists>fuel r. WithAttrs fuel lb h attrs st = Inr r"
proof -
  obtain hs as' attrs' where
    ex: "extractHeaders h (st_attrs st) attrs = Inr (hs, as', attrs')"
    using extractHeaders_returns [OF len] by blast
  obtain enc st2 where ne: "newEncoder h (st\<lparr>st_attrs := as'\<rparr>) = (enc, st2)"
    by (cases "newEncoder h (st\<lparr>st_attrs := as'\<rparr>)")
  let ?fuel = "Suc (sum_list (map size attrs'))"
  have "size a < ?fuel" if "a \<in> set attrs'" for a
    using that by (auto simp: less_Suc_eq_le member_le_sum_list)
  then have w: "writeAttr ?fuel (ap_store lb) lb (h_opts h) e b a (h_groupPrefix h) \<noteq> None"
    if "a \<in> set attrs'" for a e b
    using that by (intro writeAttr_enough_fuel [OF nohook])
  have "for_attrs (\<lambda>e buf a. writeAttr ?fuel (ap_store lb) lb (h_opts h) e buf a (h_groupPrefix h))
               enc (st_bytes st2, h_context h) attrs' \<noteq> None"
    using w
    by (rule for_attrs_returns
          [of attrs' "\<lambda>e buf a. writeAttr ?fuel (ap_store lb) lb (h_opts h) e buf a (h_groupPrefix h)"])
  then obtain r where "for_attrs (\<lambda>e buf a. writeAttr ?fuel (ap_store lb) lb (h_opts h) e buf a (h_groupPrefix h))
               enc (st_bytes st2, h_context h) attrs' = Some r"
    by auto
  then have "\<exists>r. WithAttrs ?fuel lb h attrs st = Inr r"
    using ex ne by (cases r) (simp add: WithAttrs_def Let_def)
  then show ?thesis by blast
qed

subsection \<open>Concrete runs\<close>

lemma derived_eq:
  "\<not> isl (WithAttrs (Suc 0) demo_lib h attrs st)
   \<Longrightarrow> WithAttrs (Suc 0) demo_lib h attrs st = Inr (derived h attrs st)"
  by (cases "WithAttrs (Suc 0) demo_lib h attrs st") (simp_all add: derived_def)

lemma after_eq:
  "\<not> isl (run (Suc 0) demo_lib xs w) \<Longrightarrow> run (Suc 0) demo_lib xs w = Inr (after xs w)"
  by (cases "run (Suc 0) demo_lib xs w") (simp_all add: after_def)

subsection \<open>The context a render copies\<close>

lemma Handle_begin_context:
  assumes "Handle_begin lb h rec st enc = (enc1, headerLen)"
  shows "\<exists>e. middleBuf enc1
           = middleBuf enc
             @ snd (writeMessage ap_list lb (h_opts h) e [] (rec_Level rec) (rec_Message rec))
             @ context_bytes st h"
proof -
  define e1 where "e1 = via_headerBuf (\<lambda>e b. writeTimestamp ap_list lb (h_opts h) e b (rec_Time rec)) enc"
  define e2 where "e2 = via_headerBuf (\<lambda>e b. writeLevel ap_list lb (h_opts h) e b (rec_Level rec)) e1"
  define e3 where "e3 = (if AddSource (h_opts h)
             then via_headerBuf (\<lambda>e b. writeSource ap_list lb (h_opts h) e b (rec_PC rec) (cwd lb)) e2
             else e2)"
  define e4 where "e4 = via_middleBuf (\<lambda>e b. writeMessage ap_list lb (h_opts h) e b (rec_Level rec) (rec_Message rec)) e3"
  have k1: "middleBuf e1 = middleBuf enc \<and> trailerBuf e1 = trailerBuf enc
         \<and> enc_groups e1 = enc_groups enc \<and> enc_headers e1 = enc_headers enc"
    unfolding e1_def by (rule via_headerBuf_keeps) (rule writeTimestamp_enc)
  have k2: "middleBuf e2 = middleBuf e1 \<and> trailerBuf e2 = trailerBuf e1
         \<and> enc_groups e2 = enc_groups e1 \<and> enc_headers e2 = enc_headers e1"
    unfolding e2_def by (rule via_headerBuf_keeps) (rule writeLevel_enc)
  have k3: "middleBuf e3 = middleBuf e2"
  proof (cases "AddSource (h_opts h)")
    case True
    then have "e3 = via_headerBuf (\<lambda>e b. writeSource ap_list lb (h_opts h) e b (rec_PC rec) (cwd lb)) e2"
      by (simp add: e3_def)
    then show ?thesis
      using via_headerBuf_keeps [of "\<lambda>e b. writeSource ap_list lb (h_opts h) e b (rec_PC rec) (cwd lb)" e2, OF writeSource_enc]
      by simp
  next
    case False
    then show ?thesis by (simp add: e3_def)
  qed
  have k4: "headerBuf e4 = headerBuf e3 \<and> trailerBuf e4 = trailerBuf e3
         \<and> enc_groups e4 = enc_groups e3 \<and> enc_headers e4 = enc_headers e3
         \<and> middleBuf e4 = snd (writeMessage ap_list lb (h_opts h) e3 (middleBuf e3) (rec_Level rec) (rec_Message rec))"
    unfolding e4_def by (rule via_middleBuf_keeps) (rule writeMessage_enc)
  have "middleBuf e3 = middleBuf enc"
    using k1 k2 k3 by simp
  then have m: "middleBuf e4 = middleBuf enc @ snd (writeMessage ap_list lb (h_opts h) e3 [] (rec_Level rec) (rec_Message rec))"
    using k4 writeMessage_prefix [of lb "h_opts h" e3 "middleBuf enc" "[]"] by simp
  have enc1: "enc1 = e4\<lparr>middleBuf := buffer_copy (middleBuf e4) (sread (st_bytes st) (h_context h))\<rparr>"
    using assms unfolding e4_def e3_def e2_def e1_def Handle_begin_def Let_def by auto
  show ?thesis
    using enc1 m by (auto simp: buffer_copy_def context_bytes_def)
qed

lemma run_frame:
  assumes "world_ok (hs, st)" and "run fuel lb xs (hs, st) = Inr (hs', st')"
  shows "world_ok (hs', st')"
    and "\<exists>new. hs' = hs @ new"
    and "store_extends (st_bytes st) (st_bytes st')"
    and "\<And>h. h \<in> set hs \<Longrightarrow> context_bytes st' h = context_bytes st h"
    and "\<And>h. h \<in> set hs \<Longrightarrow> header_slots st' h = header_slots st h"
  using run_props [OF assms] by blast+

subsection \<open>Levels\<close>

lemma level_switch_text:
  "level_switch opts l = (style, str, delta)
   \<Longrightarrow> style = level_style opts l
       \<and> (if delta \<noteq> 0 then str @ fmt_plus_d delta else str) = spec_level_text l"
proof -
  have neg: "- l - 4 = - 4 - l"
    by simp
  show "level_switch opts l = (style, str, delta)
   \<Longrightarrow> style = level_style opts l
       \<and> (if delta \<noteq> 0 then str @ fmt_plus_d delta else str) = spec_level_text l"
    by (auto simp: level_switch_def spec_level_text_def spec_anchor_def level_style_def level_defs
          fmt_plus_d_def neg split: if_splits)
qed

lemma writeLevel_named:
  assumes "writeLevel_hook lb opts e l = (e', Some (ll, val, False))"
  shows "writeLevel ap lb opts e buf l
           = (e', ap (writeColoredString ap opts buf (spec_level_text ll) (level_style opts ll)) '' '')"
proof -
  obtain style str delta where sw: "level_switch opts ll = (style, str, delta)"
    by (cases "level_switch opts ll")
  show ?thesis
    using assms sw level_switch_text [OF sw] by (simp add: writeLevel_def)
qed

lemma writeLevel_value:
  assumes "writeLevel_hook lb opts e l = (e', Some (ll, val, True))"
  shows "writeLevel ap lb opts e buf l
           = (e', ap (writeColoredValue ap lb opts buf val (level_style opts ll)) '' '')"
proof -
  obtain style str delta where sw: "level_switch opts ll = (style, str, delta)"
    by (cases "level_switch opts ll")
  show ?thesis
    using assms sw level_switch_text [OF sw] by (simp add: writeLevel_def)
qed

lemma as_Level_Some: "as_Level v = Some ll \<Longrightarrow> v = VAny (ALevel ll)"
  by (erule as_Level.elims) simp_all

lemma writeLevel_hook_answer:
  assumes "ReplaceAttr opts = Some f"
  shows "writeLevel_hook lb opts e l =
           (e\<lparr>hookCalls := hookCalls e @ [([], Attr LevelKey (VAny (ALevel l)))]\<rparr>,
            (let v = Resolve lb (Value (f [] (Attr LevelKey (VAny (ALevel l)))))
             in if v = zero_Value then None
                else case as_Level v of
                       Some ll \<Rightarrow> Some (ll, v, False)
                     | None \<Rightarrow> Some (l, v, True)))"
  using assms
  by (simp add: writeLevel_hook_def replaceBuiltin_def callReplaceAttr_def Let_def
        split: option.splits)

text \<open>
  Claim C5. \<open>writeLevel\<close> names a level by the specified label, in the style of the
  label's anchor, and a space: the bare three-letter code on an anchor, the code of the
  nearest anchor at or below with a signed positive offset between and above the anchors,
  and \<open>DBG\<close> with a signed negative offset below the lowest anchor.

  \<^item> With no rewrite hook the level named is the event's, for every level.
  \<^item> With a rewrite hook, whatever it is, the hook is called once with the level and no
    groups, and its answer is resolved. An answer that is a level (the event's own, as
    from a hook that passes the attribute on, or another) is named in the same way, for
    every level. A zero answer elides the field. Any other answer is written as a value,
    in the style of the event's level, with the space.
  \<^item> Without colours the bytes appended for a level are the label and the space.
\<close>

theorem writeLevel_anchor_offset:
  "(ReplaceAttr opts = None \<longrightarrow>
      writeLevel ap lb opts e buf l =
        (e, ap (writeColoredString ap opts buf (spec_level_text l) (level_style opts l)) '' '')
      \<and> (NoColor opts \<longrightarrow>
            writeLevel ap_list lb opts e buf' l = (e, buf' @ spec_level_text l @ '' '')))
   \<and> (\<forall>f. ReplaceAttr opts = Some f \<longrightarrow>
        (let e' = e\<lparr>hookCalls := hookCalls e @ [([], Attr LevelKey (VAny (ALevel l)))]\<rparr>;
             v = Resolve lb (Value (f [] (Attr LevelKey (VAny (ALevel l)))))
         in writeLevel ap lb opts e buf l =
              (if v = zero_Value then (e', buf)
               else case as_Level v of
                      Some ll \<Rightarrow>
                        (e', ap (writeColoredString ap opts buf (spec_level_text ll)
                                   (level_style opts ll)) '' '')
                    | None \<Rightarrow>
                        (e', ap (writeColoredValue ap lb opts buf v (level_style opts l)) '' ''))
            \<and> (\<forall>ll. NoColor opts \<and> v = VAny (ALevel ll) \<longrightarrow>
                  writeLevel ap_list lb opts e buf' l = (e', buf' @ spec_level_text ll @ '' ''))))"
proof (intro conjI allI impI)
  assume n: "ReplaceAttr opts = None"
  then have h: "writeLevel_hook lb opts e l = (e, Some (l, zero_Value, False))"
    by (simp add: writeLevel_hook_def)
  show "writeLevel ap lb opts e buf l =
        (e, ap (writeColoredString ap opts buf (spec_level_text l) (level_style opts l)) '' '')"
    using h by (rule writeLevel_named)
  assume "NoColor opts"
  then show "writeLevel ap_list lb opts e buf' l = (e, buf' @ spec_level_text l @ '' '')"
    using writeLevel_named [OF h, of ap_list buf']
    by (simp add: writeColoredString_def withColor_def ap_list_def)
next
  fix f
  assume s: "ReplaceAttr opts = Some f"
  define e' where "e' = e\<lparr>hookCalls := hookCalls e @ [([], Attr LevelKey (VAny (ALevel l)))]\<rparr>"
  define v where "v = Resolve lb (Value (f [] (Attr LevelKey (VAny (ALevel l)))))"
  note h = writeLevel_hook_answer [OF s, of lb e l, folded e'_def v_def, unfolded Let_def]
  have main: "writeLevel ap lb opts e b l =
              (if v = zero_Value then (e', b)
               else case as_Level v of
                      Some ll \<Rightarrow>
                        (e', ap (writeColoredString ap opts b (spec_level_text ll)
                                   (level_style opts ll)) '' '')
                    | None \<Rightarrow>
                        (e', ap (writeColoredValue ap lb opts b v (level_style opts l)) '' ''))"
    for ap :: "'c \<Rightarrow> string \<Rightarrow> 'c" and b
  proof (cases "v = zero_Value")
    case True
    then show ?thesis
      using h by (simp add: writeLevel_def)
  next
    case False
    show ?thesis
    proof (cases "as_Level v")
      case None
      then have "writeLevel_hook lb opts e l = (e', Some (l, v, True))"
        using h False by simp
      then show ?thesis
        using writeLevel_value [of lb opts e l e' l v ap b] False None by simp
    next
      case (Some ll)
      then have "writeLevel_hook lb opts e l = (e', Some (ll, v, False))"
        using h False by simp
      then show ?thesis
        using writeLevel_named [of lb opts e l e' ll v ap b] False Some by simp
    qed
  qed
  have plain: "writeLevel ap_list lb opts e buf' l = (e', buf' @ spec_level_text ll @ '' '')"
    if "NoColor opts \<and> v = VAny (ALevel ll)" for ll
    using main [of ap_list buf'] that
    by (simp add: zero_Value_def writeColoredString_def withColor_def ap_list_def)
  show "let e' = e\<lparr>hookCalls := hookCalls e @ [([], Attr LevelKey (VAny (ALevel l)))]\<rparr>;
             v = Resolve lb (Value (f [] (Attr LevelKey (VAny (ALevel l)))))
         in writeLevel ap lb opts e buf l =
              (if v = zero_Value then (e', buf)
               else case as_Level v of
                      Some ll \<Rightarrow>
                        (e', ap (writeColoredString ap opts buf (spec_level_text ll)
                                   (level_style opts ll)) '' '')
                    | None \<Rightarrow>
                        (e', ap (writeColoredValue ap lb opts buf v (level_style opts l)) '' ''))
            \<and> (\<forall>ll. NoColor opts \<and> v = VAny (ALevel ll) \<longrightarrow>
                  writeLevel ap_list lb opts e buf' l = (e', buf' @ spec_level_text ll @ '' ''))"
    unfolding Let_def e'_def [symmetric] v_def [symmetric]
    using main [of ap buf] plain by blast
qed

theorem writeLevel_anchor_offset_witness:
  "ReplaceAttr demo_opts = None \<and> NoColor demo_opts
   \<and> writeLevel ap_list demo_lib demo_opts encoder0 [] 1 = (encoder0, ''INF+1 '')
   \<and> writeLevel ap_list demo_lib demo_opts encoder0 [] (-5) = (encoder0, ''DBG-1 '')
   \<and> writeLevel ap_list demo_lib demo_opts encoder0 [] 4 = (encoder0, ''WRN '')
   \<and> ReplaceAttr (demo_opts\<lparr>ReplaceAttr := Some (\<lambda>gs a. a)\<rparr>) = Some (\<lambda>gs a. a)
   \<and> NoColor (demo_opts\<lparr>ReplaceAttr := Some (\<lambda>gs a. a)\<rparr>)
   \<and> Resolve demo_lib (Value ((\<lambda>gs a. a) [] (Attr LevelKey (VAny (ALevel 1))))) = VAny (ALevel 1)
   \<and> writeLevel ap_list demo_lib (demo_opts\<lparr>ReplaceAttr := Some (\<lambda>gs a. a)\<rparr>) encoder0 [] 1
       = (encoder0\<lparr>hookCalls := [([], Attr LevelKey (VAny (ALevel 1)))]\<rparr>, ''INF+1 '')
   \<and> writeLevel ap_list demo_lib
         (demo_opts\<lparr>ReplaceAttr := Some (\<lambda>gs a. Attr (Key a) (VAny (ALevel 9)))\<rparr>) encoder0 [] 1
       = (encoder0\<lparr>hookCalls := [([], Attr LevelKey (VAny (ALevel 1)))]\<rparr>, ''ERR+1 '')
   \<and> writeLevel ap_list demo_lib
         (demo_opts\<lparr>ReplaceAttr := Some (\<lambda>gs a. Attr (Key a) (VAny ANil))\<rparr>) encoder0 [] 1
       = (encoder0\<lparr>hookCalls := [([], Attr LevelKey (VAny (ALevel 1)))]\<rparr>, [])
   \<and> writeLevel ap_list demo_lib
         (demo_opts\<lparr>ReplaceAttr := Some (\<lambda>gs a. Attr (Key a) (VString ''warning''))\<rparr>) encoder0 [] 1
       = (encoder0\<lparr>hookCalls := [([], Attr LevelKey (VAny (ALevel 1)))]\<rparr>, ''warning '')"
proof -
  let ?id = "demo_opts\<lparr>ReplaceAttr := Some (\<lambda>gs a. a)\<rparr>"
  let ?e = "encoder0\<lparr>hookCalls := [([], Attr LevelKey (VAny (ALevel 1)))]\<rparr>"
  have 1: "ReplaceAttr demo_opts = None \<and> NoColor demo_opts"
    by (simp add: demo_opts_def)
  have 2: "ReplaceAttr ?id = Some (\<lambda>gs a. a) \<and> NoColor ?id"
    by (simp add: demo_opts_def)
  have 3: "Resolve demo_lib (Value ((\<lambda>gs a. a) [] (Attr LevelKey (VAny (ALevel 1))))) = VAny (ALevel 1)"
    by code_simp
  have t: "spec_level_text 1 = ''INF+1'' \<and> spec_level_text (-5) = ''DBG-1'' \<and> spec_level_text 4 = ''WRN''"
    by code_simp
  have e: "encoder0\<lparr>hookCalls := hookCalls encoder0 @ [([], Attr LevelKey (VAny (ALevel 1)))]\<rparr> = ?e"
    by (simp add: encoder0_def)
  have a: "writeLevel ap_list demo_lib demo_opts encoder0 [] l = (encoder0, [] @ spec_level_text l @ '' '')" for l
    using writeLevel_anchor_offset [of demo_opts ap_list demo_lib encoder0 "[]" l "[]"] 1
    by (simp add: writeColoredString_def withColor_def ap_list_def)
  have b: "writeLevel ap_list demo_lib ?id encoder0 [] 1 = (?e, ''INF+1 '')"
    using writeLevel_anchor_offset [of ?id ap_list demo_lib encoder0 "[]" 1 "[]"] 2 3 t e
    by (simp add: Let_def writeColoredString_def withColor_def ap_list_def zero_Value_def)
  have c: "writeLevel ap_list demo_lib
         (demo_opts\<lparr>ReplaceAttr := Some (\<lambda>gs a. Attr (Key a) (VAny (ALevel 9)))\<rparr>) encoder0 [] 1
       = (?e, ''ERR+1 '')"
    by code_simp
  have d: "writeLevel ap_list demo_lib
         (demo_opts\<lparr>ReplaceAttr := Some (\<lambda>gs a. Attr (Key a) (VAny ANil))\<rparr>) encoder0 [] 1
       = (?e, [])"
    by code_simp
  have f: "writeLevel ap_list demo_lib
         (demo_opts\<lparr>ReplaceAttr := Some (\<lambda>gs a. Attr (Key a) (VString ''warning''))\<rparr>) encoder0 [] 1
       = (?e, ''warning '')"
    by code_simp
  show ?thesis
    using 1 2 3 a [of 1] a [of "-5"] a [of 4] t b c d f by simp
qed

subsection \<open>The timestamp\<close>

lemma writeTimestamp_hook_called:
  assumes "\<not> IsZero tt" and "ReplaceAttr opts = Some f"
  shows "hookCalls (fst (writeTimestamp ap lb opts e buf tt))
           = hookCalls e @ [([], Attr TimeKey (VTime tt))]"
  using assms
  by (auto simp: writeTimestamp_def replaceBuiltin_def callReplaceAttr_def Let_def
        split: option.splits prod.splits)

text \<open>
  Claim C7. For a zero timestamp \<open>writeTimestamp\<close> returns at once: the buffer is as it
  was (no timestamp and no space after it), the encoder and with it the log of hook calls
  are as they were (the hook is not called for the timestamp, whatever hook is
  configured), and the first step of \<open>Handle\<close> leaves the encoder untouched.
\<close>

theorem writeTimestamp_zero_elided:
  assumes "IsZero tt"
  shows "writeTimestamp ap lb opts e buf tt = (e, buf)
         \<and> hookCalls (fst (writeTimestamp ap lb opts e buf tt)) = hookCalls e
         \<and> via_headerBuf (\<lambda>e b. writeTimestamp ap_list lb opts e b tt) enc = enc"
  using assms by (simp add: writeTimestamp_def via_headerBuf_def)

theorem writeTimestamp_zero_elided_witness:
  "IsZero (Time 0 0)
   \<and> writeTimestamp ap_list demo_lib (demo_opts\<lparr>ReplaceAttr := Some (\<lambda>gs a. a)\<rparr>) encoder0 ''x'' (Time 0 0)
       = (encoder0, ''x'')"
  using writeTimestamp_zero_elided
          [of "Time 0 0" ap_list demo_lib "demo_opts\<lparr>ReplaceAttr := Some (\<lambda>gs a. a)\<rparr>"
              encoder0 "''x''" encoder0]
  by simp

subsection \<open>The multiline carve-out\<close>



subsection \<open>The line terminator\<close>






subsection \<open>Groups with an empty key\<close>

lemma Resolve_id:
  assumes "\<And>w. v \<noteq> VLogValuer w"
  shows "Resolve lb v = v"
proof -
  have m: "maxLogValues = Suc 99"
    by (simp add: maxLogValues_def)
  have g: "resolve_loop (Suc n) v = Some v" for n
    using assms by (cases v) auto
  have "resolve_loop maxLogValues v = Some v"
    unfolding m by (rule g)
  then show ?thesis
    by (simp add: Resolve_def)
qed

text \<open>
  With no prefix in effect and no hook, a group of empty key is written as its members
  are.
\<close>

lemma writeAttr_inline_group_no_prefix:
  assumes "ReplaceAttr opts = None"
  shows "writeAttr (Suc n) ap lb opts e buf (Attr [] (VGroup members)) []
           = for_attrs (\<lambda>e buf a. writeAttr n ap lb opts e buf a []) e buf members"
proof -
  have "writeAttr_resolve lb opts e (Attr [] (VGroup members)) = (e, Attr [] (VGroup members))"
    using assms by (simp add: writeAttr_resolve_def Resolve_id)
  then show ?thesis
    using assms
    by (cases "for_attrs (\<lambda>e buf a. writeAttr n ap lb opts e buf a []) e buf members")
       (auto simp: Let_def zero_Attr_def zero_Value_def)
qed

text \<open>
  Claim C4. Under the prefix \<open>g\<close>, the group of empty key holding \<open>foo=bar\<close> is
  written with the prefix \<open>g.\<close> joined to the empty key, so that the member comes out as
  \<open>g..foo=bar\<close>, where the member written directly under the prefix is \<open>g.foo=bar\<close>;
  the same through \<open>WithGroup\<close> and \<open>Handle\<close>.
\<close>

theorem writeAttr_empty_key_group_under_prefix:
  "writeAttr (Suc (Suc 0)) ap_list demo_lib demo_opts encoder0 []
       (Attr [] (VGroup [Attr ''foo'' (VString ''bar'')])) ''g''
     = Some (encoder0, '' g..foo=bar'')
   \<and> writeAttr (Suc 0) ap_list demo_lib demo_opts encoder0 [] (Attr ''foo'' (VString ''bar'')) ''g''
     = Some (encoder0, '' g.foo=bar'')
   \<and> rendered (Handle (Suc (Suc 0)) demo_lib (fst (WithGroup demo_lib handler1 ''g'' state1))
                 rec_inline_group (snd (WithGroup demo_lib handler1 ''g'' state1)))
     = ''INF foobar g..foo=bar'' @ [LF]"
  by code_simp

subsection \<open>The encoder pool\<close>

text \<open>\<open>Handle\<close> gives the encoder back to the pool only when the three writes succeed.\<close>

lemma Handle_flush_pool:
  "st_pool (snd (Handle_flush h enc st))
     = (if fst (Handle_flush h enc st) = None
        then enc\<lparr>headerBuf := [], middleBuf := [], trailerBuf := [], enc_groups := []\<rparr> # st_pool st
        else st_pool st)"
  by (auto simp: Handle_flush_def free_def encoderPool_Put_def split: prod.split option.split)

text \<open>
  Claim C6. With one encoder in the pool and a sink whose writes fail, \<open>Handle\<close> returns
  the sink's error and leaves the pool empty: the encoder it took is not given back. With
  a sink that accepts the writes the encoder is back in the pool, reset.
\<close>

theorem Handle_sink_error_leaves_encoder_out:
  "st_pool state_pooled = [pooled_encoder]
   \<and> Handle (Suc 0) demo_lib handler_failing rec_foobar state_pooled
       = Inr (Some ''nope'', state_pooled\<lparr>st_pool := []\<rparr>)
   \<and> Handle (Suc 0) demo_lib handler1 rec_foobar state_pooled
       = Inr (None, state_pooled\<lparr>st_sink := ''INF foobar'' @ [LF]\<rparr>)"
  by code_simp

subsection \<open>The header example\<close>

text \<open>
  Claim C8. With header keys \<open>foo\<close> and \<open>bar\<close> and an event carrying \<open>bar=baz\<close> and
  \<open>baz=foo\<close>, the header buffer is the level, the value \<open>baz\<close> alone (the slot of
  \<open>foo\<close> gives nothing) and the divider; the middle buffer is the message and
  \<open>baz=foo\<close>, without \<open>bar\<close>; the trailer is empty.
\<close>

theorem Handle_headers_foo_bar:
  "sections (Handle_encode (Suc 0) demo_lib handler_foo_bar rec_headers state_foo_bar)
     = (''INF baz > '', ''with headers baz=foo'' @ [LF], [])
   \<and> rendered (Handle (Suc 0) demo_lib handler_foo_bar rec_headers state_foo_bar)
     = ''INF baz > with headers baz=foo'' @ [LF]"
  by code_simp

subsection \<open>The caller's slice\<close>

text \<open>
  Claim C10. \<open>WithAttrs\<close> leaves the caller's slice with the zero \<open>Attr\<close> in every
  entry whose key is one of the header keys, and with every other entry as it was. The
  extraction of the headers, which does this, returns for every handler that has one slot
  for each header key; with no \<open>ReplaceAttr\<close> hook the whole of \<open>WithAttrs\<close> returns.
\<close>

theorem WithAttrs_zeroes_header_attrs:
  assumes "s_len (h_headers h) = length (Headers (h_opts h))"
  shows "(\<exists>hs as. extractHeaders h (st_attrs st) attrs
            = Inr (hs, as, map (\<lambda>a. if Key a \<in> set (Headers (h_opts h)) then zero_Attr else a) attrs))
       \<and> (\<forall>h' attrs' st'. WithAttrs fuel lb h attrs st = Inr (h', attrs', st')
            \<longrightarrow> attrs' = map (\<lambda>a. if Key a \<in> set (Headers (h_opts h)) then zero_Attr else a) attrs)
       \<and> (ReplaceAttr (h_opts h) = None \<longrightarrow> (\<exists>fuel r. WithAttrs fuel lb h attrs st = Inr r))"
proof (intro conjI allI impI)
  show "\<exists>hs as. extractHeaders h (st_attrs st) attrs
            = Inr (hs, as, map (\<lambda>a. if Key a \<in> set (Headers (h_opts h)) then zero_Attr else a) attrs)"
    using assms by (rule extractHeaders_returns)
next
  fix h' attrs' st'
  assume "WithAttrs fuel lb h attrs st = Inr (h', attrs', st')"
  then obtain headers as1 where
    "extractHeaders_loop h (st_attrs st) (h_headers h) False attrs = Inr (headers, as1, attrs')"
    by (auto simp: WithAttrs_def extractHeaders_def Let_def split: sum.splits prod.splits option.splits)
  then show "attrs' = map (\<lambda>a. if Key a \<in> set (Headers (h_opts h)) then zero_Attr else a) attrs"
    by (rule extractHeaders_loop_attrs)
next
  assume "ReplaceAttr (h_opts h) = None"
  then show "\<exists>fuel r. WithAttrs fuel lb h attrs st = Inr r"
    using assms by (rule WithAttrs_returns)
qed

theorem WithAttrs_zeroes_header_attrs_witness:
  "s_len (h_headers handler_foo_bar) = length (Headers (h_opts handler_foo_bar))
   \<and> ReplaceAttr (h_opts handler_foo_bar) = None
   \<and> WithAttrs (Suc 0) demo_lib handler_foo_bar
        [Attr ''foo'' (VString ''baz''), Attr ''x'' (VInt64 1), Attr ''bar'' (VString ''q'')] state_foo_bar
       = Inr (derived handler_foo_bar
                [Attr ''foo'' (VString ''baz''), Attr ''x'' (VInt64 1), Attr ''bar'' (VString ''q'')]
                state_foo_bar)
   \<and> fst (snd (derived handler_foo_bar
                [Attr ''foo'' (VString ''baz''), Attr ''x'' (VInt64 1), Attr ''bar'' (VString ''q'')]
                state_foo_bar))
       = [zero_Attr, Attr ''x'' (VInt64 1), zero_Attr]"
proof -
  let ?attrs = "[Attr ''foo'' (VString ''baz''), Attr ''x'' (VInt64 1), Attr ''bar'' (VString ''q'')]"
  have 1: "s_len (h_headers handler_foo_bar) = length (Headers (h_opts handler_foo_bar))"
    by code_simp
  have 2: "ReplaceAttr (h_opts handler_foo_bar) = None"
    by code_simp
  have "\<not> isl (WithAttrs (Suc 0) demo_lib handler_foo_bar ?attrs state_foo_bar)"
    by code_simp
  then have 3: "WithAttrs (Suc 0) demo_lib handler_foo_bar ?attrs state_foo_bar
                  = Inr (derived handler_foo_bar ?attrs state_foo_bar)"
    by (rule derived_eq)
  have 4: "map (\<lambda>a. if Key a \<in> set (Headers (h_opts handler_foo_bar)) then zero_Attr else a) ?attrs
             = [zero_Attr, Attr ''x'' (VInt64 1), zero_Attr]"
    by code_simp
  obtain h' attrs' st' where d: "derived handler_foo_bar ?attrs state_foo_bar = (h', attrs', st')"
    by (cases "derived handler_foo_bar ?attrs state_foo_bar")
  have "attrs' = [zero_Attr, Attr ''x'' (VInt64 1), zero_Attr]"
    using WithAttrs_zeroes_header_attrs [OF 1, of state_foo_bar ?attrs "Suc 0" demo_lib] 3 4 d
    by simp
  then show ?thesis
    using 1 2 3 d by simp
qed

subsection \<open>Header slots over time\<close>

text \<open>
  Claim C3. Let a handler of the table derive a child with \<open>WithAttrs\<close>, let any
  sequence of renders and derivations follow, and let any handler of the table then render
  an event.

  \<^item> The child's slots are the parent's, each slot of a header key that the bound
    attributes carry holding the last of them; a slot whose key they do not carry holds
    the parent's value.
  \<^item> The operations that follow, whatever events they render and whatever they derive,
    leave the slots of the child and of every older handler as they were: a value of an
    event goes to no handler's slots, and a bound value stays.
  \<^item> A handler derived from the child with \<open>WithGroup\<close> has the child's slots.
  \<^item> The slots the render writes are the rendering handler's, each slot of a header key
    that the event's attributes carry holding the last of them.

  So a bound value is written by every later render of the child and of a descendant,
  except where the event or a derivation on the way to the descendant carries the same
  key.
\<close>

theorem header_slots_bound_and_overridden:
  assumes w: "world_ok (hs, st)" and i: "i < length hs"
    and d: "WithAttrs fuel lb (hs ! i) attrs st = Inr (c, attrs', st1)"
    and r: "run fuel lb xs (hs @ [c], st1) = Inr (hs2, st2)"
    and j: "j < length hs2"
    and e: "Handle_encode fuel lb (hs2 ! j) rec st2 = Inr (enc', st3)"
  shows "header_slots st1 c
           = override_slots (Headers (h_opts (hs ! i))) (header_slots st (hs ! i)) attrs
       \<and> (\<forall>idx. Headers (h_opts (hs ! i)) ! idx \<notin> Key ` set attrs
             \<longrightarrow> header_slots st1 c ! idx = header_slots st (hs ! i) ! idx)
       \<and> header_slots st2 c = header_slots st1 c
       \<and> (\<forall>h \<in> set hs. header_slots st2 h = header_slots st h)
       \<and> (\<forall>name. header_slots (snd (WithGroup lb c name st2)) (fst (WithGroup lb c name st2))
                  = header_slots st1 c)
       \<and> (\<exists>enc n as sl.
             enc' = Handle_terminate (Handle_headers lb (hs2 ! j) n enc as sl)
           \<and> sread as sl = override_slots (Headers (h_opts (hs2 ! j))) (header_slots st2 (hs2 ! j))
                              (rec_Attrs rec))"
proof -
  have mem: "hs ! i \<in> set hs"
    using i by simp
  note f = WithAttrs_props [OF d world_okD(2) [OF w mem] world_okD(1) [OF w]]
  have s: "step fuel lb (DeriveAttrs i attrs) (hs, st) = Inr (hs @ [c], st1)"
    using i d by simp
  note sp = step_props [OF w s]
  note rp = run_props [OF sp(1) r]
  have 1: "header_slots st1 c
           = override_slots (Headers (h_opts (hs ! i))) (header_slots st (hs ! i)) attrs"
    using f(5) by (simp add: header_slots_def)
  have 2: "header_slots st1 c ! idx = header_slots st (hs ! i) ! idx"
    if "Headers (h_opts (hs ! i)) ! idx \<notin> Key ` set attrs" for idx
    using 1 override_slots_other [OF that] by simp
  have 3: "header_slots st2 c = header_slots st1 c"
    using rp by simp
  have 4: "header_slots st2 h = header_slots st h" if "h \<in> set hs" for h
    using rp sp(5) [OF that] that by simp
  have 5: "header_slots (snd (WithGroup lb c name st2)) (fst (WithGroup lb c name st2))
             = header_slots st1 c" for name
    using 3 WithGroup_props(2,6) [of lb c name st2, OF prod.collapse [symmetric]]
    by (simp add: header_slots_def)
  have memj: "hs2 ! j \<in> set hs2"
    using j by simp
  have 6: "\<exists>enc n as sl.
             enc' = Handle_terminate (Handle_headers lb (hs2 ! j) n enc as sl)
           \<and> sread as sl = override_slots (Headers (h_opts (hs2 ! j))) (header_slots st2 (hs2 ! j))
                              (rec_Attrs rec)"
    using rp Handle_encode_headers [OF world_okD(1) world_okD(2) [OF _ memj] e, of hs2]
    by (simp add: header_slots_def)
  show ?thesis
    using 1 2 3 4 5 6 by blast
qed

theorem header_slots_bound_and_overridden_witness:
  "world_ok ([handler_foo_bar], state_foo_bar)
   \<and> \<not> isl (WithAttrs (Suc 0) demo_lib handler_foo_bar [Attr ''foo'' (VString ''baz'')] state_foo_bar)
   \<and> \<not> isl (run (Suc 0) demo_lib
               [Render 1 rec_foo_biz, DeriveAttrs 1 [Attr ''foo'' (VString ''buz'')], Render 2 rec_no_attrs]
               ([handler_foo_bar, handler_foo_baz], state_foo_baz))
   \<and> \<not> isl (Handle_encode (Suc 0) demo_lib handler_foo_baz rec_no_attrs
               (snd (after [Render 1 rec_foo_biz, DeriveAttrs 1 [Attr ''foo'' (VString ''buz'')],
                            Render 2 rec_no_attrs]
                       ([handler_foo_bar, handler_foo_baz], state_foo_baz))))
   \<and> header_slots state_foo_baz handler_foo_baz = [Attr ''foo'' (VString ''baz''), zero_Attr]
   \<and> header_slots (snd (after [Render 1 rec_foo_biz, DeriveAttrs 1 [Attr ''foo'' (VString ''buz'')],
                               Render 2 rec_no_attrs]
                          ([handler_foo_bar, handler_foo_baz], state_foo_baz))) handler_foo_baz
       = [Attr ''foo'' (VString ''baz''), zero_Attr]
   \<and> st_sink (snd (after [Render 1 rec_foo_biz, DeriveAttrs 1 [Attr ''foo'' (VString ''buz'')],
                          Render 2 rec_no_attrs, Render 1 rec_no_attrs]
                     ([handler_foo_bar, handler_foo_baz], state_foo_baz)))
       = ''INF biz > with headers'' @ [LF] @ ''INF buz > with headers'' @ [LF]
         @ ''INF baz > with headers'' @ [LF]"
proof -
  let ?attrs = "[Attr ''foo'' (VString ''baz'')]"
  let ?xs = "[Render 1 rec_foo_biz, DeriveAttrs 1 [Attr ''foo'' (VString ''buz'')], Render 2 rec_no_attrs]"
  let ?w = "after ?xs ([handler_foo_bar, handler_foo_baz], state_foo_baz)"
  have 1: "world_ok ([handler_foo_bar], state_foo_bar)"
    by code_simp
  have 2: "\<not> isl (WithAttrs (Suc 0) demo_lib handler_foo_bar ?attrs state_foo_bar)"
    by code_simp
  have 3: "\<not> isl (run (Suc 0) demo_lib ?xs ([handler_foo_bar, handler_foo_baz], state_foo_baz))"
    by code_simp
  have 4: "\<not> isl (Handle_encode (Suc 0) demo_lib handler_foo_baz rec_no_attrs (snd ?w))"
    by code_simp
  have 5: "header_slots state_foo_baz handler_foo_baz = [Attr ''foo'' (VString ''baz''), zero_Attr]"
    by code_simp
  have 6: "st_sink (snd (after (?xs @ [Render 1 rec_no_attrs])
                     ([handler_foo_bar, handler_foo_baz], state_foo_baz)))
       = ''INF biz > with headers'' @ [LF] @ ''INF buz > with headers'' @ [LF]
         @ ''INF baz > with headers'' @ [LF]"
    by code_simp
  have 7: "length (fst ?w) = 3 \<and> 1 < length (fst ?w)"
    by code_simp
  have d: "WithAttrs (Suc 0) demo_lib ([handler_foo_bar] ! 0) ?attrs state_foo_bar
             = Inr (handler_foo_baz, fst (snd (derived handler_foo_bar ?attrs state_foo_bar)),
                    state_foo_baz)"
    using derived_eq [OF 2] by (simp add: handler_foo_baz_def state_foo_baz_def)
  have r: "run (Suc 0) demo_lib ?xs ([handler_foo_bar] @ [handler_foo_baz], state_foo_baz)
             = Inr (fst ?w, snd ?w)"
    using after_eq [OF 3] by simp
  have j: "fst ?w ! 1 = handler_foo_baz"
    using run_props [OF _ r] step_props(1) [of "[handler_foo_bar]" state_foo_bar "Suc 0" demo_lib
        "DeriveAttrs 0 ?attrs" "[handler_foo_bar] @ [handler_foo_baz]" state_foo_baz] 1 d
    by auto
  obtain enc' st3 where
    e: "Handle_encode (Suc 0) demo_lib (fst ?w ! 1) rec_no_attrs (snd ?w) = Inr (enc', st3)"
    using 4 j by (cases "Handle_encode (Suc 0) demo_lib handler_foo_baz rec_no_attrs (snd ?w)") auto
  have "header_slots (snd ?w) handler_foo_baz = header_slots state_foo_baz handler_foo_baz"
    using header_slots_bound_and_overridden [OF 1 _ d r _ e] 7 by simp
  then show ?thesis
    using 1 2 3 4 5 6 by simp
qed

text \<open>
  The claim as it is stated fails for a descendant that binds the same key again: with
  \<open>foo=baz\<close> bound on \<open>h2\<close> and \<open>foo=buz\<close> bound on \<open>h3\<close>, derived from \<open>h2\<close>, a
  render of \<open>h3\<close> writes \<open>buz\<close> and not \<open>baz\<close>, while \<open>h2\<close> still writes \<open>baz\<close>.
\<close>

theorem WithAttrs_rebound_header_counterexample:
  "header_slots state_foo_baz handler_foo_baz = [Attr ''foo'' (VString ''baz''), zero_Attr]
   \<and> header_slots state_foo_buz handler_foo_buz = [Attr ''foo'' (VString ''buz''), zero_Attr]
   \<and> rendered (Handle (Suc 0) demo_lib handler_foo_buz rec_no_attrs state_foo_buz)
       = ''INF buz > with headers'' @ [LF]
   \<and> rendered (Handle (Suc 0) demo_lib handler_foo_baz rec_no_attrs state_foo_buz)
       = ''INF baz > with headers'' @ [LF]"
  by code_simp

subsection \<open>Sibling contexts\<close>

text \<open>
  Claim C1. Let a handler of the table (the parent) derive a child with \<open>WithAttrs\<close>,
  let any sequence of renders and derivations follow, let the parent derive a second
  child, and let any sequence of renders and derivations follow again.

  \<^item> The context of each child is then the parent's context, as it was at the start,
    followed by the bytes that \<open>writeAttr\<close> writes for that child's own attributes
    (with an encoder that starts, when there is a hook, from the groups the parent has at
    the time of the derivation), and nothing else; the parent's context is as it was at
    the start.
  \<^item> The capacity of each child's context is its length.
  \<^item> Every array of bytes that the store held at the start is unchanged at the end.
  \<^item> A render of a child puts that same context after the message.
\<close>

theorem WithAttrs_children_contexts_apart:
  assumes w: "world_ok (hs, st)" and i: "i < length hs"
    and d1: "WithAttrs fuel lb (hs ! i) attrs1 st = Inr (c1, left1, st1)"
    and r1: "run fuel lb xs1 (hs @ [c1], st1) = Inr (hs2, st2)"
    and d2: "WithAttrs fuel lb (hs ! i) attrs2 st2 = Inr (c2, left2, st3)"
    and r2: "run fuel lb xs2 (hs2 @ [c2], st3) = Inr (hs4, st4)"
  shows "\<exists>enc1 e1 b1 enc2 e2 b2.
           bound_bytes fuel lb (hs ! i) enc1 left1 = Some (e1, b1)
         \<and> bound_bytes fuel lb (hs ! i) enc2 left2 = Some (e2, b2)
         \<and> enc_groups enc1 = (if ReplaceAttr (h_opts (hs ! i)) \<noteq> None
                                then sread (st_groups st) (h_groups (hs ! i)) else [])
         \<and> enc_groups enc2 = (if ReplaceAttr (h_opts (hs ! i)) \<noteq> None
                                then sread (st_groups st2) (h_groups (hs ! i)) else [])
         \<and> context_bytes st4 c1 = context_bytes st (hs ! i) @ b1
         \<and> context_bytes st4 c2 = context_bytes st (hs ! i) @ b2
         \<and> context_bytes st4 (hs ! i) = context_bytes st (hs ! i)
         \<and> s_cap (h_context c1) = s_len (h_context c1)
         \<and> s_cap (h_context c2) = s_len (h_context c2)
         \<and> store_extends (st_bytes st) (st_bytes st4)
         \<and> (\<forall>rec enc enc' n. Handle_begin lb c1 rec st4 enc = (enc', n) \<longrightarrow>
               (\<exists>e. middleBuf enc'
                  = middleBuf enc
                    @ snd (writeMessage ap_list lb (h_opts c1) e [] (rec_Level rec) (rec_Message rec))
                    @ context_bytes st (hs ! i) @ b1))
         \<and> (\<forall>rec enc enc' n. Handle_begin lb c2 rec st4 enc = (enc', n) \<longrightarrow>
               (\<exists>e. middleBuf enc'
                  = middleBuf enc
                    @ snd (writeMessage ap_list lb (h_opts c2) e [] (rec_Level rec) (rec_Message rec))
                    @ context_bytes st (hs ! i) @ b2))"
proof -
  let ?p = "hs ! i"
  have mem: "?p \<in> set hs"
    using i by simp
  note f1 = WithAttrs_props [OF d1 world_okD(2) [OF w mem] world_okD(1) [OF w]]
  have s1: "step fuel lb (DeriveAttrs i attrs1) (hs, st) = Inr (hs @ [c1], st1)"
    using i d1 by simp
  note sp1 = step_props [OF w s1]
  note rp1 = run_frame [OF sp1(1) r1]
  from rp1(2) obtain new where hs2: "hs2 = (hs @ [c1]) @ new" ..
  note w2 = rp1(1)
  have i2: "i < length hs2" and p2: "hs2 ! i = ?p"
    using i hs2 by (simp_all add: nth_append)
  have mem2: "?p \<in> set hs2" and c1_2: "c1 \<in> set hs2"
    using mem hs2 by simp_all
  note f2 = WithAttrs_props [OF d2 world_okD(2) [OF w2 mem2] world_okD(1) [OF w2]]
  have s2: "step fuel lb (DeriveAttrs i attrs2) (hs2, st2) = Inr (hs2 @ [c2], st3)"
    using i2 p2 d2 by simp
  note sp2 = step_props [OF w2 s2]
  note rp2 = run_frame [OF sp2(1) r2]
  from f1(6) obtain enc1 e1 b1 where
    b1: "bound_bytes fuel lb ?p enc1 left1 = Some (e1, b1)"
    and g1: "enc_groups enc1 = (if ReplaceAttr (h_opts ?p) \<noteq> None
                                then sread (st_groups st) (h_groups ?p) else [])"
    and x1: "context_bytes st1 c1 = context_bytes st ?p @ b1"
    by (auto simp: context_bytes_def)
  from f2(6) obtain enc2 e2 b2 where
    b2: "bound_bytes fuel lb ?p enc2 left2 = Some (e2, b2)"
    and g2: "enc_groups enc2 = (if ReplaceAttr (h_opts ?p) \<noteq> None
                                then sread (st_groups st2) (h_groups ?p) else [])"
    and x2: "context_bytes st3 c2 = context_bytes st2 ?p @ b2"
    by (auto simp: context_bytes_def)
  have p_12: "context_bytes st2 ?p = context_bytes st ?p"
    using rp1(4) [of ?p] sp1(4) [OF mem] mem by simp
  have p_4: "context_bytes st4 ?p = context_bytes st ?p"
    using rp2(4) [of ?p] sp2(4) [OF mem2] mem2 p_12 by simp
  have c1_4: "context_bytes st4 c1 = context_bytes st ?p @ b1"
    using rp2(4) [of c1] sp2(4) [OF c1_2] c1_2 rp1(4) [of c1] x1 by simp
  have c2_4: "context_bytes st4 c2 = context_bytes st ?p @ b2"
    using rp2(4) [of c2] x2 p_12 by simp
  have clip1: "s_cap (h_context c1) = s_len (h_context c1)"
    using f1(4) by (simp add: handler_ok_def)
  have clip2: "s_cap (h_context c2) = s_len (h_context c2)"
    using f2(4) by (simp add: handler_ok_def)
  have ext: "store_extends (st_bytes st) (st_bytes st4)"
    using sp1(3) rp1(3) sp2(3) rp2(3) store_extends_trans by blast
  have rd1: "\<exists>e. middleBuf enc'
                  = middleBuf enc
                    @ snd (writeMessage ap_list lb (h_opts c1) e [] (rec_Level rec) (rec_Message rec))
                    @ context_bytes st ?p @ b1"
    if "Handle_begin lb c1 rec st4 enc = (enc', n)" for rec enc enc' n
    using Handle_begin_context [OF that] c1_4 by simp
  have rd2: "\<exists>e. middleBuf enc'
                  = middleBuf enc
                    @ snd (writeMessage ap_list lb (h_opts c2) e [] (rec_Level rec) (rec_Message rec))
                    @ context_bytes st ?p @ b2"
    if "Handle_begin lb c2 rec st4 enc = (enc', n)" for rec enc enc' n
    using Handle_begin_context [OF that] c2_4 by simp
  have rd1': "\<forall>rec enc enc' n. Handle_begin lb c1 rec st4 enc = (enc', n) \<longrightarrow>
               (\<exists>e. middleBuf enc'
                  = middleBuf enc
                    @ snd (writeMessage ap_list lb (h_opts c1) e [] (rec_Level rec) (rec_Message rec))
                    @ context_bytes st ?p @ b1)"
    using rd1 by blast
  have rd2': "\<forall>rec enc enc' n. Handle_begin lb c2 rec st4 enc = (enc', n) \<longrightarrow>
               (\<exists>e. middleBuf enc'
                  = middleBuf enc
                    @ snd (writeMessage ap_list lb (h_opts c2) e [] (rec_Level rec) (rec_Message rec))
                    @ context_bytes st ?p @ b2)"
    using rd2 by blast
  show ?thesis
    apply (rule exI [of _ enc1], rule exI [of _ e1], rule exI [of _ b1])
    apply (rule exI [of _ enc2], rule exI [of _ e2], rule exI [of _ b2])
    apply (intro conjI)
    apply (rule b1, rule b2, rule g1, rule g2, rule c1_4, rule c2_4, rule p_4)
    apply (rule clip1, rule clip2, rule ext, rule rd1', rule rd2')
    done
qed

theorem WithAttrs_children_contexts_apart_witness:
  "world_ok ([handler_ctx], state_ctx)
   \<and> \<not> isl (WithAttrs (Suc 0) demo_lib handler_ctx [Attr ''a'' (VInt64 1)] state_ctx)
   \<and> \<not> isl (run (Suc 0) demo_lib ops_a ([handler_ctx, child_a], state_a))
   \<and> \<not> isl (WithAttrs (Suc 0) demo_lib handler_ctx [Attr ''b'' (VInt64 2)] (snd world_a))
   \<and> \<not> isl (run (Suc 0) demo_lib ops_b (fst world_a @ [child_b], state_b))
   \<and> context_bytes state_ctx handler_ctx = '' c=1'' @ [LF] @ ''2''
   \<and> context_bytes (snd world_b) handler_ctx = '' c=1'' @ [LF] @ ''2''
   \<and> context_bytes (snd world_b) child_a = '' c=1'' @ [LF] @ ''2 a=1''
   \<and> context_bytes (snd world_b) child_b = '' c=1'' @ [LF] @ ''2 b=2''
   \<and> store_extends (st_bytes state_ctx) (st_bytes (snd world_b))
   \<and> st_sink (snd world_b)
       = ''INF foobar c=1'' @ [LF] @ ''2 a=1'' @ [LF]
         @ ''INF foobar c=1'' @ [LF] @ ''2 a=1 d=4'' @ [LF]
         @ ''INF foobar c=1'' @ [LF] @ ''2 b=2'' @ [LF]
         @ ''INF foobar c=1'' @ [LF] @ ''2 a=1'' @ [LF]
         @ ''INF foobar c=1'' @ [LF] @ ''2'' @ [LF]"
proof -
  have 1: "world_ok ([handler_ctx], state_ctx)"
    by code_simp
  have 2: "\<not> isl (WithAttrs (Suc 0) demo_lib handler_ctx [Attr ''a'' (VInt64 1)] state_ctx)"
    by code_simp
  have 3: "\<not> isl (run (Suc 0) demo_lib ops_a ([handler_ctx, child_a], state_a))"
    by code_simp
  have 4: "\<not> isl (WithAttrs (Suc 0) demo_lib handler_ctx [Attr ''b'' (VInt64 2)] (snd world_a))"
    by code_simp
  have 5: "\<not> isl (run (Suc 0) demo_lib ops_b (fst world_a @ [child_b], state_b))"
    by code_simp
  have 6: "context_bytes state_ctx handler_ctx = '' c=1'' @ [LF] @ ''2''"
    by code_simp
  have 7: "context_bytes (snd world_b) child_a = '' c=1'' @ [LF] @ ''2 a=1''"
    by code_simp
  have 8: "context_bytes (snd world_b) child_b = '' c=1'' @ [LF] @ ''2 b=2''"
    by code_simp
  have 9: "st_sink (snd world_b)
       = ''INF foobar c=1'' @ [LF] @ ''2 a=1'' @ [LF]
         @ ''INF foobar c=1'' @ [LF] @ ''2 a=1 d=4'' @ [LF]
         @ ''INF foobar c=1'' @ [LF] @ ''2 b=2'' @ [LF]
         @ ''INF foobar c=1'' @ [LF] @ ''2 a=1'' @ [LF]
         @ ''INF foobar c=1'' @ [LF] @ ''2'' @ [LF]"
    by code_simp
  have d1: "WithAttrs (Suc 0) demo_lib ([handler_ctx] ! 0) [Attr ''a'' (VInt64 1)] state_ctx
              = Inr (child_a, fst (snd (derived handler_ctx [Attr ''a'' (VInt64 1)] state_ctx)), state_a)"
    using derived_eq [OF 2] by (simp add: child_a_def state_a_def)
  have r1: "run (Suc 0) demo_lib ops_a ([handler_ctx] @ [child_a], state_a) = Inr (fst world_a, snd world_a)"
    using after_eq [OF 3] by (simp add: world_a_def)
  have d2: "WithAttrs (Suc 0) demo_lib ([handler_ctx] ! 0) [Attr ''b'' (VInt64 2)] (snd world_a)
              = Inr (child_b, fst (snd (derived handler_ctx [Attr ''b'' (VInt64 2)] (snd world_a))), state_b)"
    using derived_eq [OF 4] by (simp add: child_b_def state_b_def)
  have r2: "run (Suc 0) demo_lib ops_b (fst world_a @ [child_b], state_b) = Inr (fst world_b, snd world_b)"
    using after_eq [OF 5] by (simp add: world_b_def)
  have "context_bytes (snd world_b) handler_ctx = context_bytes state_ctx handler_ctx
        \<and> store_extends (st_bytes state_ctx) (st_bytes (snd world_b))"
    using WithAttrs_children_contexts_apart [OF 1 _ d1 r1 d2 r2] by auto
  then show ?thesis
    using 1 2 3 4 5 6 7 8 9 by simp
qed

end
